theory Spec2Isabelle
  imports Main "HOL-Library.Word"
begin

unbundle bit_operations_syntax

section \<open>The gossip daemon (gossipd/gossipd.c)\<close>

subsection \<open>Machine types and wire messages\<close>

type_synonym u8 = "8 word"
type_synonym u16 = "16 word"
type_synonym u32 = "32 word"
type_synonym u64 = "64 word"

text \<open>A \<^verbatim>\<open>struct bitcoin_blkid\<close> (the chain hash) and a raw wire blob are byte strings;
  a \<^verbatim>\<open>struct short_channel_id\<close> is its \<^verbatim>\<open>u64\<close> member.\<close>

type_synonym blkid = "u8 list"
type_synonym blob = "u8 list"
type_synonym short_channel_id = u64

text \<open>What \<^verbatim>\<open>queue_peer_msg\<close> hands to the peer's connection. The serialisers
  (\<^verbatim>\<open>towire_*\<close>, generated code) are not part of gossipd.c, so a message built by one of
  them is kept as the constructor applied to the serialiser's arguments; a stored gossip
  message that is forwarded verbatim is \<open>Raw\<close>. \<^verbatim>\<open>peer_error\<close> formats an error message:
  the format string is kept, the hex dump of the offending message is not.\<close>

datatype fail = Status_failed string

datatype peer_msg =
    Raw blob
  | Error_msg string
  | Gossip_timestamp_filter blkid u32 u32
  | Reply_channel_range blkid u32 u32 u8 blob
  | Reply_short_channel_ids_end blkid bool
  | Query_short_channel_ids blkid blob
  | Query_channel_range blkid u32 u32

subsection \<open>\<^verbatim>\<open>struct peer\<close>\<close>

text \<open>Pointers that are either \<^verbatim>\<open>NULL\<close> or a tal array are options of lists;
  \<^verbatim>\<open>gossip_timer\<close> is only ever tested against \<^verbatim>\<open>NULL\<close>, so it is the flag "armed".
  \<^verbatim>\<open>size_t\<close> counters are 64-bit words, array indices are naturals. The type \<open>'k\<close> is
  \<^verbatim>\<open>struct pubkey\<close>.\<close>

record 'k peer =
  peer_id :: 'k
  gossip_queries_feature :: bool
  initial_routing_sync_feature :: bool
  broadcast_index :: u64
  gossip_timestamp_min :: u32
  gossip_timestamp_max :: u32
  scid_queries :: "short_channel_id list option"
  scid_query_idx :: nat
  scid_query_nodes :: "'k list option"
  scid_query_nodes_idx :: nat
  gossip_timer :: bool
  num_scid_queries_outstanding :: u64
  num_pings_outstanding :: u64
  query_channel_blocks :: "u8 list option"
  first_channel_range :: u32
  query_channel_scids :: "short_channel_id list option"

definition UINT32_MAX :: u32 where
  "UINT32_MAX = 0xFFFFFFFF"

definition UINT64_MAX :: u64 where
  "UINT64_MAX = 0xFFFFFFFFFFFFFFFF"

text \<open>\<^verbatim>\<open>wake_gossip_out\<close>: frees the timer; the wake-up of the write loop leaves the
  peer record as it is.\<close>

definition wake_gossip_out :: "'k peer \<Rightarrow> 'k peer" where
  "wake_gossip_out peer = peer\<lparr>gossip_timer := False\<rparr>"

text \<open>\<^verbatim>\<open>peer_error\<close>: the message queued for the peer.\<close>

definition peer_error :: "string \<Rightarrow> peer_msg list" where
  "peer_error fmt = [Error_msg fmt]"

subsection \<open>The routing state (declared in gossipd/routing.h, gossipd/broadcast.h)\<close>

text \<open>Modelled from the spec: the structures of the routing core are declared outside
  gossipd.c; only the members gossipd.c reads or writes are kept. A half-channel is defined
  once it has a \<^verbatim>\<open>channel_update\<close>; a channel is public once it has a
  \<^verbatim>\<open>channel_announce\<close>; whether it has been announced (\<^verbatim>\<open>is_chan_announced\<close>) is the
  flag \<open>chan_announced\<close>. Pointers to nodes are the node ids, pointers to channels the
  short channel ids under which the channel map holds them.\<close>

record half_chan =
  channel_update :: "blob option"
  channel_flags :: u8
  last_timestamp :: u32

record 'k chan =
  chan_scid :: short_channel_id
  half0 :: half_chan
  half1 :: half_chan
  nodes0 :: 'k
  nodes1 :: 'k
  channel_announce :: "blob option"
  chan_announced :: bool
  local_disabled :: bool

record 'k node =
  node_id :: 'k
  chans :: "short_channel_id list"
  node_announcement :: "blob option"
  node_announcement_index :: u64

record 'k routing_state =
  chain_hash :: blkid
  chanmap :: "(short_channel_id \<times> 'k chan) list"
  nodes :: "('k \<times> 'k node) list"
  broadcasts :: "(u64 \<times> u32 \<times> blob) list"
  next_index :: u64

text \<open>\<^verbatim>\<open>struct daemon\<close>: the members the functions below use.\<close>

record 'k daemon =
  daemon_id :: 'k
  peers :: "'k peer list"
  rstate :: "'k routing_state"

text \<open>Modelled from the spec: the accessors of gossipd/routing.h, which is not part of
  gossipd.c. \<^verbatim>\<open>chan->half[direction]\<close>; a half channel is defined once it has an update, a
  channel is public once it has an announcement; \<^verbatim>\<open>get_channel\<close> and \<^verbatim>\<open>get_node\<close> are the
  lookups in the channel map and in the node map.\<close>

definition half :: "'k chan \<Rightarrow> nat \<Rightarrow> half_chan" where
  "half c direction = (if direction = 0 then half0 c else half1 c)"

definition is_halfchan_defined :: "half_chan \<Rightarrow> bool" where
  "is_halfchan_defined hc = (channel_update hc \<noteq> None)"

definition is_chan_public :: "'k chan \<Rightarrow> bool" where
  "is_chan_public c = (channel_announce c \<noteq> None)"

definition is_chan_announced :: "'k chan \<Rightarrow> bool" where
  "is_chan_announced c = chan_announced c"

definition get_channel :: "'k routing_state \<Rightarrow> short_channel_id \<Rightarrow> 'k chan option" where
  "get_channel rs s = map_of (chanmap rs) s"

definition get_node :: "'k routing_state \<Rightarrow> 'k \<Rightarrow> 'k node option" where
  "get_node rs k = map_of (nodes rs) k"

text \<open>Modelled from the spec: \<^verbatim>\<open>other_node\<close> (gossipd/routing.h), the end of the channel
  that is not \<open>n\<close>.\<close>

definition other_node :: "'k node \<Rightarrow> 'k chan \<Rightarrow> 'k" where
  "other_node n c = (if nodes1 c = node_id n then nodes0 c else nodes1 c)"

text \<open>The bytes of a tal array, where \<^verbatim>\<open>NULL\<close> has no elements
  (\<^verbatim>\<open>tal_count(NULL) = 0\<close>).\<close>

definition tal_list :: "'a list option \<Rightarrow> 'a list" where
  "tal_list p = (case p of None \<Rightarrow> [] | Some xs \<Rightarrow> xs)"

text \<open>Modelled from the spec: \<^verbatim>\<open>next_broadcast\<close> (gossipd/broadcast.c) is not part of
  gossipd.c. The log is the sequence of (index, timestamp, payload); the cursor is the
  index of the last entry looked at, and the next entry is the first one with a greater
  index. Entries outside the timestamp window are passed over.\<close>

fun next_broadcast :: "(u64 \<times> u32 \<times> blob) list \<Rightarrow> u32 \<Rightarrow> u32 \<Rightarrow> u64 \<Rightarrow> blob option \<times> u64" where
  "next_broadcast [] timestamp_min timestamp_max last_index = (None, last_index)"
| "next_broadcast ((i, ts, payload) # es) timestamp_min timestamp_max last_index =
     (if i \<le> last_index then next_broadcast es timestamp_min timestamp_max last_index
      else if timestamp_min \<le> ts \<and> ts \<le> timestamp_max then (Some payload, i)
      else next_broadcast es timestamp_min timestamp_max i)"

subsection \<open>Peer teardown: \<^verbatim>\<open>peer_disable_channels\<close>, \<^verbatim>\<open>destroy_peer\<close>\<close>

text \<open>The write \<^verbatim>\<open>c->local_disabled = true\<close> goes through a pointer into the channel map;
  the loop runs over \<^verbatim>\<open>node->chans\<close>. The C array holds pointers to live channels; an id that
  the channel map does not hold is passed over.\<close>

definition set_local_disabled :: "short_channel_id \<Rightarrow> 'k routing_state \<Rightarrow> 'k routing_state" where
  "set_local_disabled s rs =
     rs\<lparr>chanmap := map (\<lambda>(k, c). if k = s then (k, c\<lparr>local_disabled := True\<rparr>) else (k, c))
                        (chanmap rs)\<rparr>"

fun peer_disable_loop :: "'k \<Rightarrow> 'k node \<Rightarrow> short_channel_id list \<Rightarrow> 'k routing_state \<Rightarrow> 'k routing_state" where
  "peer_disable_loop me n [] rs = rs"
| "peer_disable_loop me n (s # ss) rs =
     (case get_channel rs s of
        None \<Rightarrow> peer_disable_loop me n ss rs
      | Some c \<Rightarrow>
          if other_node n c = me then peer_disable_loop me n ss (set_local_disabled s rs)
          else peer_disable_loop me n ss rs)"

definition peer_disable_channels :: "'k daemon \<Rightarrow> 'k node \<Rightarrow> 'k daemon" where
  "peer_disable_channels daemon n =
     daemon\<lparr>rstate := peer_disable_loop (daemon_id daemon) n (chans n) (rstate daemon)\<rparr>"

definition destroy_peer :: "'k daemon \<Rightarrow> 'k peer \<Rightarrow> 'k daemon" where
  "destroy_peer daemon peer =
     (let daemon1 = daemon\<lparr>peers := remove1 peer (peers daemon)\<rparr>
      in case get_node (rstate daemon1) (peer_id peer) of
           None \<Rightarrow> daemon1
         | Some n \<Rightarrow> peer_disable_channels daemon1 n)"

definition find_peer :: "'k daemon \<Rightarrow> 'k \<Rightarrow> 'k peer option" where
  "find_peer daemon k = find (\<lambda>p. peer_id p = k) (peers daemon)"

subsection \<open>The short channel id codec\<close>

text \<open>Modelled from the spec: \<^verbatim>\<open>mk_short_channel_id\<close>, \<^verbatim>\<open>short_channel_id_blocknum\<close>
  and \<^verbatim>\<open>towire_short_channel_id\<close> are not part of gossipd.c. A short channel id is the
  64-bit value made of block height (3 bytes), transaction index (3 bytes) and output
  index (2 bytes), so that the integer order is block, then transaction, then output; on
  the wire it is 8 bytes, big-endian.\<close>

definition mk_short_channel_id :: "u32 \<Rightarrow> u32 \<Rightarrow> u16 \<Rightarrow> short_channel_id" where
  "mk_short_channel_id blocknum txnum outnum =
     push_bit 40 (ucast blocknum AND 0xFFFFFF) OR push_bit 16 (ucast txnum AND 0xFFFFFF)
       OR (ucast outnum AND 0xFFFF)"

definition short_channel_id_blocknum :: "short_channel_id \<Rightarrow> u32" where
  "short_channel_id_blocknum s = ucast (drop_bit 40 s)"

definition towire_short_channel_id :: "short_channel_id \<Rightarrow> blob" where
  "towire_short_channel_id s = map (\<lambda>i. ucast (drop_bit (8 * i) s)) [7, 6, 5, 4, 3, 2, 1, 0]"

definition SHORTIDS_UNCOMPRESSED :: u8 where
  "SHORTIDS_UNCOMPRESSED = 0"

definition SHORTIDS_ZLIB :: u8 where
  "SHORTIDS_ZLIB = 1"

definition encode_short_channel_ids_start :: blob where
  "encode_short_channel_ids_start = [SHORTIDS_ZLIB]"

definition encode_add_short_channel_id :: "blob \<Rightarrow> short_channel_id \<Rightarrow> blob" where
  "encode_add_short_channel_id encoded s = encoded @ towire_short_channel_id s"

text \<open>zlib is a library outside the repository. Its compressor is the parameter
  \<open>deflate\<close>: the complete zlib stream for an input at \<^verbatim>\<open>Z_BEST_COMPRESSION\<close>.
  \<^verbatim>\<open>compress2\<close> writes that stream when it fits into the destination buffer and
  reports \<^verbatim>\<open>Z_BUF_ERROR\<close> when it does not.\<close>

definition Z_OK :: int where
  "Z_OK = 0"

definition Z_BUF_ERROR :: int where
  "Z_BUF_ERROR = - 5"

definition compress2 :: "(blob \<Rightarrow> blob) \<Rightarrow> nat \<Rightarrow> blob \<Rightarrow> int \<times> blob" where
  "compress2 deflate dest_len source =
     (if length (deflate source) \<le> dest_len then (Z_OK, deflate source) else (Z_BUF_ERROR, []))"

definition zencode_scids :: "(blob \<Rightarrow> blob) \<Rightarrow> blob \<Rightarrow> blob option" where
  "zencode_scids deflate scids =
     (let (err, z) = compress2 deflate (length scids) scids
      in if err = Z_OK then Some z else None)"

text \<open>\<^verbatim>\<open>check_length\<close>, the label both branches of \<^verbatim>\<open>encode_short_channel_ids_end\<close>
  jump to. \<open>max_scids_encode_bytes\<close> is the developer knob of that name
  (\<^verbatim>\<open>-1U\<close> unless set).\<close>

definition check_length :: "u32 \<Rightarrow> blob \<Rightarrow> nat \<Rightarrow> bool" where
  "check_length max_scids_encode_bytes encoded max_bytes =
     (if length encoded > unat max_scids_encode_bytes then False
      else length encoded \<le> max_bytes)"

text \<open>The result is the returned flag and the array \<^verbatim>\<open>*encoded\<close> afterwards. Every
  caller starts the array with its tag byte; reading the tag of an empty array is out of
  range and is made a failure here.\<close>

definition encode_short_channel_ids_end ::
  "(blob \<Rightarrow> blob) \<Rightarrow> u32 \<Rightarrow> blob \<Rightarrow> nat \<Rightarrow> fail + (bool \<times> blob)" where
  "encode_short_channel_ids_end deflate max_scids_encode_bytes encoded max_bytes =
     (case encoded of
        [] \<Rightarrow> Inl (Status_failed ''short_ids encoding without tag'')
      | tag # body \<Rightarrow>
          if tag = SHORTIDS_ZLIB then
            (case zencode_scids deflate body of
               Some z \<Rightarrow>
                 Inr (check_length max_scids_encode_bytes (tag # z) max_bytes, tag # z)
             | None \<Rightarrow>
                 Inr (check_length max_scids_encode_bytes (SHORTIDS_UNCOMPRESSED # body) max_bytes,
                      SHORTIDS_UNCOMPRESSED # body))
          else if tag = SHORTIDS_UNCOMPRESSED then
            Inr (check_length max_scids_encode_bytes encoded max_bytes, encoded)
          else Inl (Status_failed ''Unknown short_ids encoding''))"

text \<open>The encoder as its callers run it: start, add every id, finish.\<close>

definition encode_scids :: "(blob \<Rightarrow> blob) \<Rightarrow> u32 \<Rightarrow> short_channel_id list \<Rightarrow> nat \<Rightarrow> fail + (bool \<times> blob)" where
  "encode_scids deflate max_scids_encode_bytes ss max_bytes =
     encode_short_channel_ids_end deflate max_scids_encode_bytes
       (foldl encode_add_short_channel_id encode_short_channel_ids_start ss) max_bytes"

text \<open>The zlib streams (zlib 1.2.13, \<^verbatim>\<open>compress2\<close> at level 9) of the inputs that are
  evaluated below: the empty input; the 16 bytes of the short channel ids (1, 0, 0) and
  (1, 0, 1); the 16 bytes of (1, 0, 0) and (2, 0, 0); the 8 bytes of (1, 0, 0); the 8
  bytes of (2, 0, 0). It is a table of these five streams, not a model of zlib: on any
  other input its value is a filler longer than the input, and no statement evaluates
  it there.\<close>

definition zlib_level9 :: "blob \<Rightarrow> blob" where
  "zlib_level9 xs =
     (if xs = [] then [120, 218, 3, 0, 0, 0, 0, 1]
      else if xs = [0, 0, 1, 0, 0, 0, 0, 0, 0, 0, 1, 0, 0, 0, 0, 1]
      then [120, 218, 99, 96, 96, 100, 128, 0, 48, 205, 8, 0, 0, 37, 0, 4]
      else if xs = [0, 0, 1, 0, 0, 0, 0, 0, 0, 0, 2, 0, 0, 0, 0, 0]
      then [120, 218, 99, 96, 96, 100, 128, 0, 38, 48, 9, 0, 0, 42, 0, 4]
      else if xs = [0, 0, 1, 0, 0, 0, 0, 0]
      then [120, 218, 99, 96, 96, 100, 0, 1, 0, 0, 14, 0, 2]
      else if xs = [0, 0, 2, 0, 0, 0, 0, 0]
      then [120, 218, 99, 96, 96, 98, 0, 1, 0, 0, 20, 0, 3]
      else replicate 11 0 @ xs)"

subsection \<open>\<^verbatim>\<open>handle_query_short_channel_ids\<close>\<close>

text \<open>The argument \<open>m\<close> of a handler is the result of the message's \<^verbatim>\<open>fromwire_\<close>
  parser: \<open>None\<close> when the message does not parse. The result is the peer afterwards
  and the messages queued to it. \<^verbatim>\<open>decode_short_ids\<close> (common/decode_short_channel_ids.c)
  is the parameter \<open>decode_short_ids\<close>.\<close>

definition handle_query_short_channel_ids ::
  "(blob \<Rightarrow> short_channel_id list option) \<Rightarrow> 'k routing_state \<Rightarrow> 'k peer \<Rightarrow>
   (blkid \<times> blob) option \<Rightarrow> 'k peer \<times> peer_msg list" where
  "handle_query_short_channel_ids decode_short_ids rs peer m =
     (case m of
        None \<Rightarrow> (peer, peer_error ''Bad query_short_channel_ids'')
      | Some (chain, encoded) \<Rightarrow>
          if chain_hash rs \<noteq> chain then (peer, [])
          else if scid_queries peer \<noteq> None \<or> scid_query_nodes peer \<noteq> None
          then (peer, peer_error ''Bad concurrent query_short_channel_ids'')
          else
            (case decode_short_ids encoded of
               None \<Rightarrow> (peer, peer_error ''Bad query_short_channel_ids encoding'')
             | Some scids \<Rightarrow>
                 (peer\<lparr>scid_queries := Some scids, scid_query_idx := 0,
                        scid_query_nodes := Some []\<rparr>, [])))"

subsection \<open>\<^verbatim>\<open>handle_gossip_timestamp_filter\<close>\<close>

definition handle_gossip_timestamp_filter ::
  "'k routing_state \<Rightarrow> 'k peer \<Rightarrow> (blkid \<times> u32 \<times> u32) option \<Rightarrow> 'k peer \<times> peer_msg list" where
  "handle_gossip_timestamp_filter rs peer m =
     (case m of
        None \<Rightarrow> (peer, peer_error ''Bad gossip_timestamp_filter'')
      | Some (chain, first_timestamp, timestamp_range) \<Rightarrow>
          if chain_hash rs \<noteq> chain then (peer, [])
          else
            let peer1 = (if gossip_timestamp_min peer > gossip_timestamp_max peer
                         then wake_gossip_out peer else peer);
                peer2 = peer1\<lparr>gossip_timestamp_min := first_timestamp\<rparr>;
                peer3 = peer2\<lparr>gossip_timestamp_max := first_timestamp + timestamp_range - 1\<rparr>;
                peer4 = (if gossip_timestamp_max peer3 < gossip_timestamp_min peer3
                         then peer3\<lparr>gossip_timestamp_max := UINT32_MAX\<rparr> else peer3)
            in (peer4\<lparr>broadcast_index := 0\<rparr>, []))"

subsection \<open>\<^verbatim>\<open>queue_channel_ranges\<close>, \<^verbatim>\<open>handle_query_channel_range\<close>\<close>

text \<open>Modelled from the spec: \<^verbatim>\<open>uintmap_after\<close> (ccan/intmap) walks the channel map in
  the order of the ids: it yields the least key of the map greater than the index, if
  there is one. The C function stores that key back through its pointer argument.\<close>

definition uintmap_after :: "(u64 \<times> 'v) list \<Rightarrow> u64 \<Rightarrow> u64 option" where
  "uintmap_after m index =
     (let later = filter (\<lambda>k. index < k) (map fst m)
      in if later = [] then None else Some (Min (set later)))"

definition reply_channel_range :: "'k routing_state \<Rightarrow> u32 \<Rightarrow> u32 \<Rightarrow> blob \<Rightarrow> peer_msg list" where
  "reply_channel_range rs first_blocknum number_of_blocks encoded =
     [Reply_channel_range (chain_hash rs) first_blocknum number_of_blocks 1 encoded]"

lemma uintmap_after_Some:
  assumes "uintmap_after m i = Some k"
  shows "k \<in> fst ` set m" and "i < k" and "\<And>k'. k' \<in> fst ` set m \<Longrightarrow> i < k' \<Longrightarrow> k \<le> k'"
proof -
  let ?later = "filter (\<lambda>k. i < k) (map fst m)"
  from assms have ne: "?later \<noteq> []" and k: "k = Min (set ?later)"
    by (simp_all add: uintmap_after_def Let_def filter_empty_conv split: if_splits)
  have "set ?later \<noteq> {}" using ne set_empty [of ?later] by blast
  then have "k \<in> set ?later" unfolding k by (intro Min_in) simp_all
  then show "k \<in> fst ` set m" and "i < k" by auto
  fix k' assume "k' \<in> fst ` set m" "i < k'"
  then have "k' \<in> set ?later" by auto
  then show "k \<le> k'" unfolding k by (intro Min_le) auto
qed

lemma uintmap_after_None:
  assumes "uintmap_after m i = None"
  shows "\<And>k'. k' \<in> fst ` set m \<Longrightarrow> \<not> i < k'"
proof -
  fix k' assume a: "k' \<in> fst ` set m"
  from assms have "filter (\<lambda>k. i < k) (map fst m) = []"
    by (auto simp: uintmap_after_def Let_def split: if_splits)
  then show "\<not> i < k'" using a by (auto simp: filter_empty_conv)
qed

lemma uintmap_after_card:
  assumes "uintmap_after m i = Some k"
  shows "card {x \<in> fst ` set m. k < x} < card {x \<in> fst ` set m. i < x}"
proof (rule psubset_card_mono)
  show "finite {x \<in> fst ` set m. i < x}" by simp
  have "k \<in> {x \<in> fst ` set m. i < x}" using uintmap_after_Some(1,2) [OF assms] by simp
  moreover have "k \<notin> {x \<in> fst ` set m. k < x}" by simp
  moreover have "{x \<in> fst ` set m. k < x} \<subseteq> {x \<in> fst ` set m. i < x}"
    using uintmap_after_Some(2) [OF assms] by auto
  ultimately show "{x \<in> fst ` set m. k < x} \<subset> {x \<in> fst ` set m. i < x}" by blast
qed

text \<open>The \<^verbatim>\<open>while\<close> loop of \<^verbatim>\<open>queue_channel_ranges\<close>: \<open>s\<close> is the id the
  iteration stands at, \<open>limit\<close> is \<^verbatim>\<open>first_blocknum + number_of_blocks\<close>.\<close>

function channel_range_scan :: "(u64 \<times> 'v) list \<Rightarrow> u64 \<Rightarrow> u32 \<Rightarrow> blob \<Rightarrow> blob" where
  "channel_range_scan m s limit encoded =
     (case uintmap_after m s of
        None \<Rightarrow> encoded
      | Some s' \<Rightarrow>
          if short_channel_id_blocknum s' \<ge> limit then encoded
          else channel_range_scan m s' limit (encode_add_short_channel_id encoded s'))"
  by pat_completeness auto
termination
  by (relation "measure (\<lambda>(m, s, limit, encoded). card {x \<in> fst ` set m. s < x})")
     (auto simp: uintmap_after_card)

declare channel_range_scan.simps [simp del]

text \<open>\<^verbatim>\<open>queue_channel_ranges\<close> up to its call of \<^verbatim>\<open>encode_short_channel_ids_end\<close>:
  the flag returned there and the encoded array.\<close>

definition channel_range_encoded ::
  "(blob \<Rightarrow> blob) \<Rightarrow> u32 \<Rightarrow> 'k routing_state \<Rightarrow> u32 \<Rightarrow> u32 \<Rightarrow> fail + (bool \<times> blob)" where
  "channel_range_encoded deflate max_scids_encode_bytes rs first_blocknum number_of_blocks =
     (let encoded = encode_short_channel_ids_start;
          reply_overhead = 32 + 4 + 4 + 1 + 2;
          max_encoded_bytes = 65535 - 2 - reply_overhead;
          s = (if first_blocknum = 0 then mk_short_channel_id 1 0 0
               else mk_short_channel_id first_blocknum 0 0) - 1;
          encoded = channel_range_scan (chanmap rs) s (first_blocknum + number_of_blocks) encoded
      in encode_short_channel_ids_end deflate max_scids_encode_bytes encoded max_encoded_bytes)"

lemma u32_half_less:
  fixes n :: u32
  assumes "\<not> n \<le> 1"
  shows "unat (n div 2) < unat n" and "unat (n - n div 2) < unat n"
proof -
  have n: "1 < unat n" using assms by (simp add: word_le_nat_alt)
  have d: "unat (n div 2) = unat n div 2" by (simp add: unat_div)
  show "unat (n div 2) < unat n" using n d by simp
  have "n div 2 \<le> n" by (simp add: word_le_nat_alt d)
  then have "unat (n - n div 2) = unat n - unat (n div 2)" by (rule unat_sub)
  then show "unat (n - n div 2) < unat n" using n d by simp
qed

text \<open>The rest of \<^verbatim>\<open>queue_channel_ranges\<close>: one reply if the ids fit; nothing (and a
  log line) if they do not fit and the range is at most one block; otherwise the two
  halves in turn. Only \<^verbatim>\<open>status_failed\<close> inside the encoder aborts.\<close>

function queue_channel_ranges ::
  "(blob \<Rightarrow> blob) \<Rightarrow> u32 \<Rightarrow> 'k routing_state \<Rightarrow> u32 \<Rightarrow> u32 \<Rightarrow> fail + peer_msg list" where
  "queue_channel_ranges deflate max_scids_encode_bytes rs first_blocknum number_of_blocks =
     (case channel_range_encoded deflate max_scids_encode_bytes rs first_blocknum number_of_blocks of
        Inl e \<Rightarrow> Inl e
      | Inr r \<Rightarrow>
          if fst r then Inr (reply_channel_range rs first_blocknum number_of_blocks (snd r))
          else if number_of_blocks \<le> 1 then Inr []
          else
            (case queue_channel_ranges deflate max_scids_encode_bytes rs first_blocknum
                    (number_of_blocks div 2) of
               Inl e \<Rightarrow> Inl e
             | Inr out1 \<Rightarrow>
                 (case queue_channel_ranges deflate max_scids_encode_bytes rs
                         (first_blocknum + number_of_blocks div 2)
                         (number_of_blocks - number_of_blocks div 2) of
                    Inl e \<Rightarrow> Inl e
                  | Inr out2 \<Rightarrow> Inr (out1 @ out2))))"
  by pat_completeness auto
termination
  by (relation "measure (\<lambda>(deflate, mx, rs, first_blocknum, number_of_blocks). unat number_of_blocks)")
     (auto simp: u32_half_less)

declare queue_channel_ranges.simps [simp del]

definition handle_query_channel_range ::
  "(blob \<Rightarrow> blob) \<Rightarrow> u32 \<Rightarrow> 'k routing_state \<Rightarrow> (blkid \<times> u32 \<times> u32) option \<Rightarrow>
   fail + peer_msg list" where
  "handle_query_channel_range deflate max_scids_encode_bytes rs m =
     (case m of
        None \<Rightarrow> Inr (peer_error ''Bad query_channel_range'')
      | Some (chain, first_blocknum, number_of_blocks) \<Rightarrow>
          if chain_hash rs \<noteq> chain then Inr []
          else if first_blocknum + number_of_blocks < first_blocknum
          then Inr (peer_error ''query_channel_range overflow'')
          else queue_channel_ranges deflate max_scids_encode_bytes rs first_blocknum
                 number_of_blocks)"

subsection \<open>Replying to a query of short channel ids\<close>

text \<open>Modelled from the spec: \<^verbatim>\<open>asort\<close> (ccan/asort) sorts the array by the comparison
  function, here \<^verbatim>\<open>pubkey_cmp\<close>, the total order on node identities: the linear order of
  \<open>'k\<close>. \<^verbatim>\<open>pubkey_eq\<close> is equality.\<close>

definition asort :: "('k::linorder) list \<Rightarrow> 'k list" where
  "asort ids = sort ids"

text \<open>The loop of \<^verbatim>\<open>uniquify_node_ids\<close> rewrites the array in place and returns it
  with the number of ids kept.\<close>

function uniquify_loop :: "'k list \<Rightarrow> nat \<Rightarrow> nat \<Rightarrow> 'k list \<times> nat" where
  "uniquify_loop ids dst src =
     (if src < length ids then
        (if dst \<noteq> 0 \<and> ids ! (dst - 1) = ids ! src then uniquify_loop ids dst (Suc src)
         else uniquify_loop (ids[dst := ids ! src]) (Suc dst) (Suc src))
      else (ids, dst))"
  by pat_completeness auto
termination
  by (relation "measure (\<lambda>(ids, dst, src). length ids - src)") auto

declare uniquify_loop.simps [simp del]

definition uniquify_node_ids :: "('k::linorder) list \<Rightarrow> 'k list" where
  "uniquify_node_ids ids = (let (ids', dst) = uniquify_loop (asort ids) 0 0 in take dst ids')"

text \<open>The first loop of \<^verbatim>\<open>create_next_scid_reply\<close>. The result is the index, the
  flag \<^verbatim>\<open>sent\<close>, the messages queued and \<^verbatim>\<open>peer->scid_query_nodes\<close>.\<close>

function scid_reply_chans ::
  "'k routing_state \<Rightarrow> short_channel_id list \<Rightarrow> nat \<Rightarrow> bool \<Rightarrow> peer_msg list \<Rightarrow> 'k list option \<Rightarrow>
   nat \<times> bool \<times> peer_msg list \<times> 'k list option" where
  "scid_reply_chans rs queries i sent out qnodes =
     (if \<not> sent \<and> i < length queries then
        (case get_channel rs (queries ! i) of
           None \<Rightarrow> scid_reply_chans rs queries (Suc i) sent out qnodes
         | Some c \<Rightarrow>
             if \<not> is_chan_announced c then scid_reply_chans rs queries (Suc i) sent out qnodes
             else
               scid_reply_chans rs queries (Suc i) True
                 (out @ [Raw (tal_list (channel_announce c))]
                      @ (case channel_update (half0 c) of None \<Rightarrow> [] | Some u \<Rightarrow> [Raw u])
                      @ (case channel_update (half1 c) of None \<Rightarrow> [] | Some u \<Rightarrow> [Raw u]))
                 (Some (tal_list qnodes @ [nodes0 c, nodes1 c])))
      else (i, sent, out, qnodes))"
  by pat_completeness auto
termination
  by (relation "measure (\<lambda>(rs, queries, i, sent, out, qnodes). length queries - i)") auto

declare scid_reply_chans.simps [simp del]

text \<open>Its second loop, over the node ids.\<close>

function scid_reply_nodes ::
  "'k routing_state \<Rightarrow> 'k list \<Rightarrow> nat \<Rightarrow> bool \<Rightarrow> peer_msg list \<Rightarrow> nat \<times> bool \<times> peer_msg list" where
  "scid_reply_nodes rs qnodes i sent out =
     (if \<not> sent \<and> i < length qnodes then
        (case get_node rs (qnodes ! i) of
           None \<Rightarrow> scid_reply_nodes rs qnodes (Suc i) sent out
         | Some n \<Rightarrow>
             if node_announcement_index n = 0 then scid_reply_nodes rs qnodes (Suc i) sent out
             else scid_reply_nodes rs qnodes (Suc i) True
                    (out @ [Raw (tal_list (node_announcement n))]))
      else (i, sent, out))"
  by pat_completeness auto
termination
  by (relation "measure (\<lambda>(rs, qnodes, i, sent, out). length qnodes - i)") auto

declare scid_reply_nodes.simps [simp del]

text \<open>The result of \<^verbatim>\<open>create_next_scid_reply\<close>: the peer afterwards, the messages
  queued, and the returned flag.\<close>

definition create_next_scid_reply ::
  "('k::linorder) routing_state \<Rightarrow> 'k peer \<Rightarrow> 'k peer \<times> peer_msg list \<times> bool" where
  "create_next_scid_reply rs peer =
     (let num = length (tal_list (scid_queries peer));
          (i, sent, out, qnodes) =
             scid_reply_chans rs (tal_list (scid_queries peer)) (scid_query_idx peer) False []
               (scid_query_nodes peer);
          qnodes' = (if scid_query_idx peer \<noteq> num \<and> i = num
                     then map_option uniquify_node_ids qnodes else qnodes);
          num' = length (tal_list qnodes');
          (j, sent', out') =
             scid_reply_nodes rs (tal_list qnodes') (scid_query_nodes_idx peer) sent out;
          peer1 = peer\<lparr>scid_query_nodes := qnodes', scid_query_idx := i,
                        scid_query_nodes_idx := j\<rparr>
      in if scid_queries peer1 \<noteq> None \<and> scid_query_nodes_idx peer1 = num'
         then (peer1\<lparr>scid_queries := None, scid_query_idx := 0, scid_query_nodes := None,
                      scid_query_nodes_idx := 0\<rparr>,
               out' @ [Reply_short_channel_ids_end (chain_hash rs) True], True)
         else (peer1, out', sent'))"

text \<open>\<open>suppress_gossip\<close> is the developer flag of that name.\<close>

definition maybe_queue_gossip ::
  "bool \<Rightarrow> 'k routing_state \<Rightarrow> 'k peer \<Rightarrow> 'k peer \<times> peer_msg list \<times> bool" where
  "maybe_queue_gossip suppress_gossip rs peer =
     (if gossip_timer peer then (peer, [], False)
      else if suppress_gossip then (peer, [], False)
      else
        let (next, index) = next_broadcast (broadcasts rs) (gossip_timestamp_min peer)
                              (gossip_timestamp_max peer) (broadcast_index peer);
            peer1 = peer\<lparr>broadcast_index := index\<rparr>
        in case next of
             Some payload \<Rightarrow> (peer1, [Raw payload], True)
           | None \<Rightarrow> (peer1\<lparr>gossip_timer := True\<rparr>, [], False))"

definition dump_gossip ::
  "bool \<Rightarrow> ('k::linorder) routing_state \<Rightarrow> 'k peer \<Rightarrow> 'k peer \<times> peer_msg list \<times> bool" where
  "dump_gossip suppress_gossip rs peer =
     (let (peer1, out, sent) = create_next_scid_reply rs peer
      in if sent then (peer1, out, True)
         else
           let (peer2, out', sent') = maybe_queue_gossip suppress_gossip rs peer1
           in (peer2, out @ out', sent'))"


text \<open>What the specification asks of the reply: for a queried id whose channel is known
  and announced, the announcement and the update of each half that has one; its two
  node ids; for a node id, the node's announcement if it has been announced.\<close>

definition scid_chan_msgs :: "'k routing_state \<Rightarrow> short_channel_id \<Rightarrow> peer_msg list" where
  "scid_chan_msgs rs s =
     (case get_channel rs s of
        None \<Rightarrow> []
      | Some c \<Rightarrow>
          if is_chan_announced c then
            [Raw (tal_list (channel_announce c))]
              @ (case channel_update (half0 c) of None \<Rightarrow> [] | Some u \<Rightarrow> [Raw u])
              @ (case channel_update (half1 c) of None \<Rightarrow> [] | Some u \<Rightarrow> [Raw u])
          else [])"

definition scid_chan_nodes :: "'k routing_state \<Rightarrow> short_channel_id \<Rightarrow> 'k list" where
  "scid_chan_nodes rs s =
     (case get_channel rs s of
        None \<Rightarrow> []
      | Some c \<Rightarrow> if is_chan_announced c then [nodes0 c, nodes1 c] else [])"

definition node_msgs :: "'k routing_state \<Rightarrow> 'k \<Rightarrow> peer_msg list" where
  "node_msgs rs k =
     (case get_node rs k of
        None \<Rightarrow> []
      | Some n \<Rightarrow>
          if node_announcement_index n \<noteq> 0 then [Raw (tal_list (node_announcement n))] else [])"

lemma slice_step:
  assumes "i < i'" "i < length q"
  shows "take (i' - i) (drop i q) = q ! i # take (i' - Suc i) (drop (Suc i) q)"
proof -
  have "drop i q = q ! i # drop (Suc i) q" using assms(2) by (simp add: Cons_nth_drop_Suc)
  moreover have "i' - i = Suc (i' - Suc i)" using assms(1) by simp
  ultimately show ?thesis by simp
qed

lemma scid_reply_chans_sent:
  "scid_reply_chans rs q i True out qn = (i, True, out, qn)"
  by (subst scid_reply_chans.simps) simp

lemma scid_reply_chans_done:
  "\<not> i < length q \<Longrightarrow> scid_reply_chans rs q i sent out qn = (i, sent, out, qn)"
  by (subst scid_reply_chans.simps) simp

lemma scid_chan_msgs_Nil_iff:
  "scid_chan_msgs rs s = [] \<longleftrightarrow>
     (case get_channel rs s of None \<Rightarrow> True | Some c \<Rightarrow> \<not> is_chan_announced c)"
  by (simp add: scid_chan_msgs_def split: option.split)

lemma scid_reply_chans_skip:
  assumes "i < length q" "scid_chan_msgs rs (q ! i) = []"
  shows "scid_reply_chans rs q i False out qn = scid_reply_chans rs q (Suc i) False out qn"
proof (cases "get_channel rs (q ! i)")
  case None
  then show ?thesis using assms(1) by (subst scid_reply_chans.simps) simp
next
  case (Some c)
  then have "\<not> is_chan_announced c" using assms(2) by (simp add: scid_chan_msgs_Nil_iff)
  then show ?thesis using assms(1) Some by (subst scid_reply_chans.simps) simp
qed

lemma scid_reply_chans_hit:
  assumes "i < length q" "scid_chan_msgs rs (q ! i) \<noteq> []"
  shows "scid_reply_chans rs q i False out qn =
           (Suc i, True, out @ scid_chan_msgs rs (q ! i),
            Some (tal_list qn @ scid_chan_nodes rs (q ! i)))"
proof (cases "get_channel rs (q ! i)")
  case None
  then show ?thesis using assms(2) by (simp add: scid_chan_msgs_Nil_iff)
next
  case (Some c)
  then have "is_chan_announced c" using assms(2) by (simp add: scid_chan_msgs_Nil_iff)
  then show ?thesis using assms(1) Some
    by (subst scid_reply_chans.simps)
       (simp add: scid_chan_msgs_def scid_chan_nodes_def scid_reply_chans_sent)
qed

lemma scid_chan_nodes_empty: "scid_chan_msgs rs s = [] \<Longrightarrow> scid_chan_nodes rs s = []"
  by (cases "get_channel rs s") (simp_all add: scid_chan_msgs_Nil_iff scid_chan_nodes_def)

lemma scid_chan_nodes_length:
  "scid_chan_msgs rs s \<noteq> [] \<Longrightarrow> length (scid_chan_nodes rs s) = 2"
  by (cases "get_channel rs s") (simp_all add: scid_chan_msgs_Nil_iff scid_chan_nodes_def)

lemma scid_reply_chans_run:
  assumes "i \<le> length q"
  shows "\<exists>i' sent' qn'.
           scid_reply_chans rs q i False out qn =
             (i', sent', out @ concat (map (scid_chan_msgs rs) (take (i' - i) (drop i q))), qn')
         \<and> i \<le> i' \<and> i' \<le> length q
         \<and> tal_list qn' = tal_list qn @ concat (map (scid_chan_nodes rs) (take (i' - i) (drop i q)))
         \<and> (\<not> sent' \<longrightarrow> i' = length q \<and> qn' = qn)
         \<and> (sent' \<longrightarrow> i < i' \<and> qn' \<noteq> None
               \<and> length (tal_list qn') = length (tal_list qn) + 2)"
  using assms
proof (induction "length q - i" arbitrary: i)
  case 0
  then have "\<not> i < length q" by simp
  then have "scid_reply_chans rs q i False out qn = (i, False, out, qn)"
    by (rule scid_reply_chans_done)
  then show ?case
    apply (intro exI [of _ i] exI [of _ False] exI [of _ qn])
    using 0 by simp
next
  case (Suc d)
  then have lt: "i < length q" by simp
  show ?case
  proof (cases "scid_chan_msgs rs (q ! i) = []")
    case True
    have d: "d = length q - Suc i" using Suc.hyps(2) by simp
    have le: "Suc i \<le> length q" using lt by simp
    from Suc.hyps(1) [OF d le] obtain i' sent' qn' where
      r: "scid_reply_chans rs q (Suc i) False out qn =
             (i', sent', out @ concat (map (scid_chan_msgs rs) (take (i' - Suc i) (drop (Suc i) q))), qn')"
      and b: "Suc i \<le> i'" "i' \<le> length q"
      and n: "tal_list qn' = tal_list qn @ concat (map (scid_chan_nodes rs) (take (i' - Suc i) (drop (Suc i) q)))"
      and s: "\<not> sent' \<longrightarrow> i' = length q \<and> qn' = qn"
             "sent' \<longrightarrow> Suc i < i' \<and> qn' \<noteq> None \<and> length (tal_list qn') = length (tal_list qn) + 2"
      by blast
    have sl: "take (i' - i) (drop i q) = q ! i # take (i' - Suc i) (drop (Suc i) q)"
      using b lt by (intro slice_step) simp_all
    show ?thesis
      apply (rule exI [of _ i'], rule exI [of _ sent'], rule exI [of _ qn'])
      using r b n s True scid_chan_nodes_empty [OF True]
      by (simp add: scid_reply_chans_skip [OF lt True] sl)
  next
    case False
    have sl: "take (Suc 0) (drop i q) = [q ! i]"
      using slice_step [of i "Suc i" q] lt by simp
    show ?thesis
      apply (rule exI [of _ "Suc i"], rule exI [of _ True],
             rule exI [of _ "Some (tal_list qn @ scid_chan_nodes rs (q ! i))"])
      using lt scid_chan_nodes_length [OF False]
      by (simp add: scid_reply_chans_hit [OF lt False] sl tal_list_def)
  qed
qed

lemma scid_reply_nodes_sent:
  "scid_reply_nodes rs qn i True out = (i, True, out)"
  by (subst scid_reply_nodes.simps) simp

lemma scid_reply_nodes_done:
  "\<not> i < length qn \<Longrightarrow> scid_reply_nodes rs qn i sent out = (i, sent, out)"
  by (subst scid_reply_nodes.simps) simp

lemma node_msgs_Nil_iff:
  "node_msgs rs k = [] \<longleftrightarrow>
     (case get_node rs k of None \<Rightarrow> True | Some n \<Rightarrow> node_announcement_index n = 0)"
  by (simp add: node_msgs_def split: option.split)

lemma scid_reply_nodes_skip:
  assumes "i < length qn" "node_msgs rs (qn ! i) = []"
  shows "scid_reply_nodes rs qn i False out = scid_reply_nodes rs qn (Suc i) False out"
proof (cases "get_node rs (qn ! i)")
  case None
  then show ?thesis using assms(1) by (subst scid_reply_nodes.simps) simp
next
  case (Some n)
  then have "node_announcement_index n = 0" using assms(2) by (simp add: node_msgs_Nil_iff)
  then show ?thesis using assms(1) Some by (subst scid_reply_nodes.simps) simp
qed

lemma scid_reply_nodes_hit:
  assumes "i < length qn" "node_msgs rs (qn ! i) \<noteq> []"
  shows "scid_reply_nodes rs qn i False out = (Suc i, True, out @ node_msgs rs (qn ! i))"
proof (cases "get_node rs (qn ! i)")
  case None
  then show ?thesis using assms(2) by (simp add: node_msgs_Nil_iff)
next
  case (Some n)
  then have "node_announcement_index n \<noteq> 0" using assms(2) by (simp add: node_msgs_Nil_iff)
  then show ?thesis using assms(1) Some
    by (subst scid_reply_nodes.simps) (simp add: node_msgs_def scid_reply_nodes_sent)
qed

lemma scid_reply_nodes_run:
  assumes "i \<le> length qn"
  shows "\<exists>i' sent'.
           scid_reply_nodes rs qn i False out =
             (i', sent', out @ concat (map (node_msgs rs) (take (i' - i) (drop i qn))))
         \<and> i \<le> i' \<and> i' \<le> length qn
         \<and> (\<not> sent' \<longrightarrow> i' = length qn)
         \<and> (sent' \<longrightarrow> i < i')"
  using assms
proof (induction "length qn - i" arbitrary: i)
  case 0
  then have "\<not> i < length qn" by simp
  then have "scid_reply_nodes rs qn i False out = (i, False, out)"
    by (rule scid_reply_nodes_done)
  then show ?case
    apply (intro exI [of _ i] exI [of _ False])
    using 0 by simp
next
  case (Suc d)
  then have lt: "i < length qn" by simp
  show ?case
  proof (cases "node_msgs rs (qn ! i) = []")
    case True
    have d: "d = length qn - Suc i" using Suc.hyps(2) by simp
    have le: "Suc i \<le> length qn" using lt by simp
    from Suc.hyps(1) [OF d le] obtain i' sent' where
      r: "scid_reply_nodes rs qn (Suc i) False out =
             (i', sent', out @ concat (map (node_msgs rs) (take (i' - Suc i) (drop (Suc i) qn))))"
      and b: "Suc i \<le> i'" "i' \<le> length qn"
      and s: "\<not> sent' \<longrightarrow> i' = length qn" "sent' \<longrightarrow> Suc i < i'"
      by blast
    have sl: "take (i' - i) (drop i qn) = qn ! i # take (i' - Suc i) (drop (Suc i) qn)"
      using b lt by (intro slice_step) simp_all
    show ?thesis
      apply (rule exI [of _ i'], rule exI [of _ sent'])
      using r b s True
      by (simp add: scid_reply_nodes_skip [OF lt True] sl)
  next
    case False
    have sl: "take (Suc 0) (drop i qn) = [qn ! i]"
      using slice_step [of i "Suc i" qn] lt by simp
    show ?thesis
      apply (rule exI [of _ "Suc i"], rule exI [of _ True])
      using lt by (simp add: scid_reply_nodes_hit [OF lt False] sl)
  qed
qed

lemma uniquify_loop_done: "\<not> src < length ids \<Longrightarrow> uniquify_loop ids dst src = (ids, dst)"
  by (subst uniquify_loop.simps) simp

lemma remdups_adj_snoc:
  "remdups_adj (xs @ [x]) =
     (if xs \<noteq> [] \<and> last xs = x then remdups_adj xs else remdups_adj xs @ [x])"
proof (cases xs rule: rev_cases)
  case Nil
  then show ?thesis by simp
next
  case (snoc ys y)
  then show ?thesis using remdups_adj_append_two [of ys y x] by simp
qed

lemma uniquify_loop_inv:
  assumes "dst \<le> src" "take dst ids = remdups_adj (take src orig)"
    "drop src ids = drop src orig" "length ids = length orig"
  shows "(case uniquify_loop ids dst src of (ids', dst') \<Rightarrow> take dst' ids') = remdups_adj orig"
  using assms
proof (induction "length ids - src" arbitrary: ids dst src)
  case 0
  then have "length orig \<le> src" by simp
  then show ?case using 0 by (simp add: uniquify_loop_done)
next
  case (Suc d)
  then have lt: "src < length ids" by simp
  then have lto: "src < length orig" using Suc.prems(4) by simp
  have "ids ! src = hd (drop src ids)" using lt by (simp add: hd_drop_conv_nth)
  also have "\<dots> = orig ! src" using lto Suc.prems(3) by (simp add: hd_drop_conv_nth)
  finally have nth: "ids ! src = orig ! src" .
  have ts: "take (Suc src) orig = take src orig @ [orig ! src]"
    using lto by (simp add: take_Suc_conv_app_nth)
  have lastd: "dst \<noteq> 0 \<Longrightarrow> take src orig \<noteq> [] \<and> last (take src orig) = ids ! (dst - 1)"
  proof -
    assume nz: "dst \<noteq> 0"
    have dl: "dst \<le> length ids" using Suc.prems(1) lt by simp
    have ne: "take dst ids \<noteq> []" using nz lt Suc.prems(1) by auto
    then have ne': "take src orig \<noteq> []" using Suc.prems(2) by simp
    have "last (take dst ids) = ids ! (dst - 1)"
      using nz dl ne by (simp add: last_conv_nth min_absorb2)
    moreover have "last (take dst ids) = last (take src orig)"
      using Suc.prems(2) by simp
    ultimately show ?thesis using ne' by simp
  qed
  have dm: "d = length ids - Suc src" using Suc.hyps(2) by simp
  show ?case
  proof (cases "dst \<noteq> 0 \<and> ids ! (dst - 1) = ids ! src")
    case True
    have r: "remdups_adj (take (Suc src) orig) = remdups_adj (take src orig)"
      using lastd True nth by (simp add: ts remdups_adj_snoc)
    have "(case uniquify_loop ids dst (Suc src) of (ids', dst') \<Rightarrow> take dst' ids') = remdups_adj orig"
    proof (rule Suc.hyps(1) [OF dm])
      show "dst \<le> Suc src" using Suc.prems(1) by simp
      show "take dst ids = remdups_adj (take (Suc src) orig)" using r Suc.prems(2) by simp
      show "drop (Suc src) ids = drop (Suc src) orig"
        using Suc.prems(3) by (metis drop_Suc tl_drop)
      show "length ids = length orig" by (rule Suc.prems(4))
    qed
    then show ?thesis using True lt by (subst uniquify_loop.simps) simp
  next
    case False
    have r: "remdups_adj (take (Suc src) orig) = remdups_adj (take src orig) @ [ids ! src]"
    proof (cases "dst = 0")
      case True
      then have "remdups_adj (take src orig) = []" using Suc.prems(2) by simp
      then have e: "take src orig = []" by (simp only: remdups_adj_Nil_iff)
      show ?thesis unfolding ts e using nth by simp
    next
      case nz: False
      then have "take src orig \<noteq> [] \<and> last (take src orig) \<noteq> ids ! src"
        using lastd False by simp
      then show ?thesis using nth by (simp add: ts remdups_adj_snoc)
    qed
    have dlt: "dst < length ids" using Suc.prems(1) lt by simp
    have "(case uniquify_loop (ids[dst := ids ! src]) (Suc dst) (Suc src) of
             (ids', dst') \<Rightarrow> take dst' ids') = remdups_adj orig"
    proof (rule Suc.hyps(1))
      show "d = length (ids[dst := ids ! src]) - Suc src" using dm by simp
      show "Suc dst \<le> Suc src" using Suc.prems(1) by simp
      show "take (Suc dst) (ids[dst := ids ! src]) = remdups_adj (take (Suc src) orig)"
        using r Suc.prems(2) dlt by (simp add: take_Suc_conv_app_nth)
      have "drop (Suc src) (ids[dst := ids ! src]) = drop (Suc src) ids"
        using Suc.prems(1) by simp
      also have "\<dots> = drop (Suc src) orig" using Suc.prems(3) by (metis drop_Suc tl_drop)
      finally show "drop (Suc src) (ids[dst := ids ! src]) = drop (Suc src) orig" .
      show "length (ids[dst := ids ! src]) = length orig" using Suc.prems(4) by simp
    qed
    then show ?thesis using False lt by (subst uniquify_loop.simps) auto
  qed
qed

lemma uniquify_node_ids_remdups_adj: "uniquify_node_ids ids = remdups_adj (sort ids)"
  using uniquify_loop_inv [of 0 0 "sort ids" "sort ids"]
  by (simp add: uniquify_node_ids_def asort_def split: prod.splits)

lemma sorted_remdups_adj_distinct: "sorted xs \<Longrightarrow> distinct (remdups_adj xs)"
  by (induct xs rule: remdups_adj.induct) (auto split: if_split_asm)

lemma uniquify_node_ids_eq: "uniquify_node_ids ids = sorted_list_of_set (set ids)"
proof -
  have "sorted (remdups_adj (sort ids))" by simp
  moreover have "distinct (remdups_adj (sort ids))"
    by (simp add: sorted_remdups_adj_distinct)
  moreover have "set (remdups_adj (sort ids)) = set ids" by simp
  ultimately show ?thesis
    using sorted_list_of_set.idem_if_sorted_distinct [of "remdups_adj (sort ids)"]
    by (simp add: uniquify_node_ids_remdups_adj)
qed

lemma uniquify_node_ids_length: "length (uniquify_node_ids ids) \<le> length ids"
  using remdups_adj_length [of "sort ids"] by (simp add: uniquify_node_ids_remdups_adj)

lemma uniquify_node_ids_Nil: "uniquify_node_ids ids = [] \<longleftrightarrow> ids = []"
  using length_sort [of "\<lambda>x. x" ids] by (simp add: uniquify_node_ids_remdups_adj del: length_sort) (metis length_0_conv)

lemma scid_reply_chans_bounds:
  assumes "scid_reply_chans rs q i False out qn = (i', s', out', qn')"
  shows "i \<le> i'"
    and "s' \<Longrightarrow> i < i' \<and> i' \<le> length q \<and> length (tal_list qn') = length (tal_list qn) + 2"
    and "\<not> s' \<Longrightarrow> qn' = qn"
proof -
  have "i \<le> i' \<and> (s' \<longrightarrow> i < i' \<and> i' \<le> length q
           \<and> length (tal_list qn') = length (tal_list qn) + 2) \<and> (\<not> s' \<longrightarrow> qn' = qn)"
  proof (cases "i \<le> length q")
    case True
    from scid_reply_chans_run [OF True, of rs out qn] show ?thesis
      using assms by auto
  next
    case False
    then have "scid_reply_chans rs q i False out qn = (i, False, out, qn)"
      by (intro scid_reply_chans_done) simp
    then show ?thesis using assms by simp
  qed
  then show "i \<le> i'"
    and "s' \<Longrightarrow> i < i' \<and> i' \<le> length q \<and> length (tal_list qn') = length (tal_list qn) + 2"
    and "\<not> s' \<Longrightarrow> qn' = qn" by simp_all
qed

lemma scid_reply_nodes_bounds:
  assumes "scid_reply_nodes rs ns j s out = (j', s', out')"
  shows "j \<le> j'" and "s \<Longrightarrow> j' = j \<and> s'" and "\<not> s \<Longrightarrow> s' \<Longrightarrow> j < j' \<and> j' \<le> length ns"
proof -
  have "j \<le> j' \<and> (s \<longrightarrow> j' = j \<and> s') \<and> (\<not> s \<longrightarrow> s' \<longrightarrow> j < j' \<and> j' \<le> length ns)"
  proof (cases s)
    case True
    then show ?thesis using assms by (simp add: scid_reply_nodes_sent)
  next
    case False
    show ?thesis
    proof (cases "j \<le> length ns")
      case True
      from scid_reply_nodes_run [OF True, of rs out] show ?thesis
        using assms False by auto
    next
      case nl: False
      then have "scid_reply_nodes rs ns j False out = (j, False, out)"
        by (intro scid_reply_nodes_done) simp
      then show ?thesis using assms False by simp
    qed
  qed
  then show "j \<le> j'" and "s \<Longrightarrow> j' = j \<and> s'" and "\<not> s \<Longrightarrow> s' \<Longrightarrow> j < j' \<and> j' \<le> length ns"
    by simp_all
qed

text \<open>The measure under which the reply to a query comes to an end.\<close>

definition scid_query_measure :: "'k peer \<Rightarrow> nat" where
  "scid_query_measure peer =
     (if scid_queries peer = None then 0
      else 1 + 3 * (length (tal_list (scid_queries peer)) - scid_query_idx peer)
             + (length (tal_list (scid_query_nodes peer)) - scid_query_nodes_idx peer))"

lemma tal_list_map_option_uniquify:
  "length (tal_list (map_option uniquify_node_ids qn)) \<le> length (tal_list qn)"
  by (cases qn) (simp_all add: tal_list_def uniquify_node_ids_length)

lemma create_next_scid_reply_unfold:
  fixes peer :: "('k::linorder) peer"
  assumes q: "scid_queries peer \<noteq> None"
    and l1: "scid_reply_chans rs (tal_list (scid_queries peer)) (scid_query_idx peer) False []
               (scid_query_nodes peer) = (i, s1, o1, qn1)"
    and qn2: "qn2 = (if scid_query_idx peer \<noteq> length (tal_list (scid_queries peer)) \<and>
                       i = length (tal_list (scid_queries peer))
                    then map_option uniquify_node_ids qn1 else qn1)"
    and l2: "scid_reply_nodes rs (tal_list qn2) (scid_query_nodes_idx peer) s1 o1 = (j, s2, o2)"
  shows "create_next_scid_reply rs peer =
     (if j = length (tal_list qn2)
      then (peer\<lparr>scid_queries := None, scid_query_idx := 0, scid_query_nodes := None,
                  scid_query_nodes_idx := 0\<rparr>,
            o2 @ [Reply_short_channel_ids_end (chain_hash rs) True], True)
      else (peer\<lparr>scid_query_nodes := qn2, scid_query_idx := i, scid_query_nodes_idx := j\<rparr>,
            o2, s2))"
  unfolding create_next_scid_reply_def Let_def l1 prod.case qn2 [symmetric] l2
  using q by simp

lemma create_next_scid_reply_measure:
  fixes peer :: "('k::linorder) peer"
  assumes q: "scid_queries peer \<noteq> None"
    and r: "(peer', out, True) = create_next_scid_reply rs peer"
  shows "scid_query_measure peer' < scid_query_measure peer"
proof -
  obtain i s1 o1 qn1 where l1:
    "scid_reply_chans rs (tal_list (scid_queries peer)) (scid_query_idx peer) False []
       (scid_query_nodes peer) = (i, s1, o1, qn1)"
    by (rule prod_cases4)
  define qn2 where "qn2 =
    (if scid_query_idx peer \<noteq> length (tal_list (scid_queries peer)) \<and>
        i = length (tal_list (scid_queries peer))
     then map_option uniquify_node_ids qn1 else qn1)"
  obtain j s2 o2 where l2:
    "scid_reply_nodes rs (tal_list qn2) (scid_query_nodes_idx peer) s1 o1 = (j, s2, o2)"
    by (rule prod_cases3)
  have len2: "length (tal_list qn2) \<le> length (tal_list qn1)"
    by (simp add: qn2_def tal_list_map_option_uniquify)
  note b1 = scid_reply_chans_bounds [OF l1]
  note b2 = scid_reply_nodes_bounds [OF l2]
  note cn = create_next_scid_reply_unfold [OF q l1 qn2_def l2]
  have res: "(peer', out, True) =
     (if j = length (tal_list qn2)
      then (peer\<lparr>scid_queries := None, scid_query_idx := 0, scid_query_nodes := None,
                  scid_query_nodes_idx := 0\<rparr>,
            o2 @ [Reply_short_channel_ids_end (chain_hash rs) True], True)
      else (peer\<lparr>scid_query_nodes := qn2, scid_query_idx := i, scid_query_nodes_idx := j\<rparr>,
            o2, s2))"
    using r cn by simp
  show ?thesis
  proof (cases "j = length (tal_list qn2)")
    case True
    then have "scid_queries peer' = None" using res by simp
    then show ?thesis using q by (simp add: scid_query_measure_def)
  next
    case False
    then have p': "peer' = peer\<lparr>scid_query_nodes := qn2, scid_query_idx := i, scid_query_nodes_idx := j\<rparr>"
      and s2: "s2" using res by simp_all
    show ?thesis
    proof (cases s1)
      case True
      then show ?thesis using b1(2) b2(2) len2 q
        by (simp add: p' scid_query_measure_def; arith)
    next
      case nf: False
      then show ?thesis using b1(1) b1(3) b2(3) [OF nf s2] len2 q
        by (simp add: p' scid_query_measure_def; arith)
    qed
  qed
qed

text \<open>The messages a query brings forth: the write loop calls \<^verbatim>\<open>dump_gossip\<close>, hence
  \<^verbatim>\<open>create_next_scid_reply\<close>, again and again while the query is in flight and the call
  reports that it has sent something.\<close>

function scid_query_output :: "('k::linorder) routing_state \<Rightarrow> 'k peer \<Rightarrow> peer_msg list" where
  "scid_query_output rs peer =
     (if scid_queries peer = None then []
      else
        (case create_next_scid_reply rs peer of
           (peer', out, sent) \<Rightarrow> if sent then out @ scid_query_output rs peer' else out))"
  by pat_completeness auto
termination
  by (relation "measure (\<lambda>(rs, peer). scid_query_measure peer)")
     (auto simp: create_next_scid_reply_measure)

declare scid_query_output.simps [simp del]

subsection \<open>Concrete states used to instantiate the theorems\<close>

definition peer0 :: "nat peer" where
  "peer0 = \<lparr>peer_id = 7, gossip_queries_feature = True, initial_routing_sync_feature = False,
     broadcast_index = 5, gossip_timestamp_min = UINT32_MAX, gossip_timestamp_max = 0,
     scid_queries = None, scid_query_idx = 0, scid_query_nodes = None, scid_query_nodes_idx = 0,
     gossip_timer = False, num_scid_queries_outstanding = 0, num_pings_outstanding = 0,
     query_channel_blocks = None, first_channel_range = 0, query_channel_scids = None\<rparr>"

definition rs0 :: "nat routing_state" where
  "rs0 = \<lparr>chain_hash = [1], chanmap = [], nodes = [], broadcasts = [], next_index = 1\<rparr>"

subsection \<open>Arithmetic of the timestamp window\<close>

lemma u32_add_sub1:
  fixes a r :: u32
  shows "uint (a + r - 1) = (uint a + uint r - 1) mod 4294967296"
proof -
  have "uint (a + r - 1) = (uint (a + r) - 1) mod 2 ^ 32"
    using uint_sub_if' [of "a + r" 1] uint_word_ariths(2) [of "a + r" 1] by simp
  also have "uint (a + r) = (uint a + uint r) mod 2 ^ 32"
    using uint_word_ariths(1) [of a r] by simp
  finally show ?thesis by (simp add: mod_diff_left_eq)
qed

lemma u32_nonzero_uint:
  fixes r :: u32
  assumes "r \<noteq> 0"
  shows "1 \<le> uint r"
proof -
  have "uint r \<noteq> 0" using assms by (simp add: uint_0_iff)
  moreover have "0 \<le> uint r" by simp
  ultimately show ?thesis by linarith
qed

lemma u32_bounds:
  fixes a :: u32
  shows "0 \<le> uint a" and "uint a < 4294967296"
  using uint_bounded [of a] by simp_all

lemma int_mod_small: "0 \<le> (x::int) \<Longrightarrow> x < m \<Longrightarrow> x mod m = x"
  by (rule mod_pos_pos_trivial)

lemma int_mod_once: "m \<le> (x::int) \<Longrightarrow> x < 2 * m \<Longrightarrow> x mod m = x - m"
proof -
  assume a: "m \<le> x" "x < 2 * m"
  have "x mod m = (x - m + m) mod m" by simp
  also have "\<dots> = (x - m) mod m" by (rule mod_add_self2)
  also have "\<dots> = x - m" using a by (intro mod_pos_pos_trivial) auto
  finally show ?thesis .
qed

lemma filter_max_overflow:
  fixes a r :: u32
  assumes "r \<noteq> 0" and "4294967296 \<le> uint a + uint r - 1"
  shows "a + r - 1 < a"
proof -
  have "(uint a + uint r - 1) mod 4294967296 = uint a + uint r - 1 - 4294967296"
    using assms(2) u32_bounds [of a] u32_bounds [of r]
    by (intro int_mod_once; linarith)
  then show ?thesis
    using u32_bounds [of a] u32_bounds [of r]
    by (simp add: word_less_def u32_add_sub1)
qed

lemma filter_max_exact:
  fixes a r :: u32
  assumes "r \<noteq> 0" and "uint a + uint r - 1 < 4294967296"
  shows "uint (a + r - 1) = uint a + uint r - 1" and "\<not> a + r - 1 < a"
proof -
  have r: "1 \<le> uint r" using assms(1) by (rule u32_nonzero_uint)
  show e: "uint (a + r - 1) = uint a + uint r - 1"
    using assms(2) r u32_bounds [of a] by (simp only: u32_add_sub1) (intro int_mod_small; linarith)
  show "\<not> a + r - 1 < a" using r by (simp add: word_less_def e)
qed

lemma u32_le_one_iff: "(1 \<le> (r::u32)) = (r \<noteq> 0)"
proof
  assume "1 \<le> r"
  then have "1 \<le> uint r" by (simp add: word_le_def)
  then show "r \<noteq> 0" by auto
next
  assume "r \<noteq> 0"
  then have "1 \<le> uint r" by (rule u32_nonzero_uint)
  then show "1 \<le> r" by (simp add: word_le_def)
qed

lemma u32_le_max: "(x::u32) \<le> UINT32_MAX"
  using u32_bounds [of x] by (simp add: word_le_def UINT32_MAX_def)

lemma u32_pred_less:
  fixes a :: u32
  assumes "a \<noteq> 0"
  shows "a - 1 < a"
proof -
  have a: "1 \<le> uint a" using assms by (rule u32_nonzero_uint)
  have "uint (a + 0 - 1) = (uint a + uint (0::u32) - 1) mod 4294967296"
    by (rule u32_add_sub1)
  also have "\<dots> = uint a - 1"
    using a u32_bounds [of a] by (simp only: uint_0_eq add_0_right) (intro int_mod_small; linarith)
  finally show ?thesis by (simp add: word_less_def)
qed

subsection \<open>Control replies, \<^verbatim>\<open>handle_reply_short_channel_ids_end\<close> and \<^verbatim>\<open>ping_req\<close>\<close>

text \<open>What \<^verbatim>\<open>daemon_conn_send(daemon->master, ...)\<close> sends, again as the serialiser's
  arguments. \<^verbatim>\<open>towire_gossip_scids_reply\<close> takes two \<^verbatim>\<open>bool\<close>s: the byte \<^verbatim>\<open>complete\<close> of
  the peer's message is converted, any value but 0 to true.\<close>

datatype 'k master_msg =
    Gossip_ping_reply 'k bool u16
  | Gossip_scids_reply bool bool

definition handle_reply_short_channel_ids_end ::
  "'k routing_state \<Rightarrow> 'k peer \<Rightarrow> (blkid \<times> u8) option \<Rightarrow>
   'k peer \<times> peer_msg list \<times> 'k master_msg list" where
  "handle_reply_short_channel_ids_end rs peer m =
     (case m of
        None \<Rightarrow> (peer, peer_error ''Bad reply_short_channel_ids_end'', [])
      | Some (chain, complete) \<Rightarrow>
          if chain_hash rs \<noteq> chain
          then (peer, peer_error ''reply_short_channel_ids_end for bad chain'', [])
          else if num_scid_queries_outstanding peer = 0
          then (peer, peer_error ''unexpected reply_short_channel_ids_end'', [])
          else (peer\<lparr>num_scid_queries_outstanding := num_scid_queries_outstanding peer - 1\<rparr>,
                [], [Gossip_scids_reply True (complete \<noteq> 0)]))"

text \<open>The first element of the list that satisfies \<open>P\<close>, replaced: the write through
  the pointer \<^verbatim>\<open>find_peer\<close> returns.\<close>

fun update_first :: "('a \<Rightarrow> bool) \<Rightarrow> ('a \<Rightarrow> 'a) \<Rightarrow> 'a list \<Rightarrow> 'a list" where
  "update_first P f [] = []"
| "update_first P f (x # xs) = (if P x then f x # xs else x # update_first P f xs)"

text \<open>\<^verbatim>\<open>make_ping\<close> (common/ping.c) is the parameter \<open>make_ping\<close>. The argument \<open>m\<close> is
  the result of \<^verbatim>\<open>fromwire_gossip_ping\<close>; \<^verbatim>\<open>master_badmsg\<close> and \<^verbatim>\<open>status_failed\<close> end the
  daemon. The result is the daemon afterwards, the messages sent to the master and the
  messages queued to the peer.\<close>

definition ping_req ::
  "(u16 \<Rightarrow> u16 \<Rightarrow> blob) \<Rightarrow> 'k daemon \<Rightarrow> ('k \<times> u16 \<times> u16) option \<Rightarrow>
   fail + ('k daemon \<times> 'k master_msg list \<times> peer_msg list)" where
  "ping_req make_ping daemon m =
     (case m of
        None \<Rightarrow> Inl (Status_failed ''master_badmsg'')
      | Some (k, num_pong_bytes, len) \<Rightarrow>
          (case find_peer daemon k of
             None \<Rightarrow> Inr (daemon, [Gossip_ping_reply k False 0], [])
           | Some peer \<Rightarrow>
               let ping = make_ping num_pong_bytes len
               in if length ping > 65535 then Inl (Status_failed ''Oversize ping'')
                  else if num_pong_bytes \<ge> 65532
                  then Inr (daemon, [Gossip_ping_reply k True 0], [Raw ping])
                  else Inr (daemon\<lparr>peers :=
                              update_first (\<lambda>p. peer_id p = k)
                                (\<lambda>p. p\<lparr>num_pings_outstanding := num_pings_outstanding p + 1\<rparr>)
                                (peers daemon)\<rparr>,
                            [], [Raw ping])))"

text \<open>Modelled from the spec: \<^verbatim>\<open>make_ping\<close> is not part of gossipd.c. The \<^verbatim>\<open>ping\<close>
  message (type 18) carries the number of pong bytes asked for, the length of the padding
  and the padding, all zero; each number is two bytes, big-endian.\<close>

definition towire_u16 :: "u16 \<Rightarrow> blob" where
  "towire_u16 v = [ucast (drop_bit 8 v), ucast v]"

definition make_ping_wire :: "u16 \<Rightarrow> u16 \<Rightarrow> blob" where
  "make_ping_wire num_pong_bytes padlen =
     towire_u16 18 @ towire_u16 num_pong_bytes @ towire_u16 padlen @ replicate (unat padlen) 0"

subsection \<open>\<^verbatim>\<open>update_local_channel\<close>\<close>

text \<open>Modelled from the spec: the flag bits of a channel update (gossipd/routing.h).\<close>

definition ROUTING_FLAGS_DISABLED :: u8 where
  "ROUTING_FLAGS_DISABLED = 2"

definition ROUTING_OPT_HTLC_MAX_MSAT :: u8 where
  "ROUTING_OPT_HTLC_MAX_MSAT = 1"

text \<open>The arguments of \<^verbatim>\<open>towire_channel_update_option_channel_htlc_max\<close>, without the
  signature.\<close>

record cupdate =
  cu_chain_hash :: blkid
  cu_short_channel_id :: short_channel_id
  cu_timestamp :: u32
  cu_message_flags :: u8
  cu_channel_flags :: u8
  cu_cltv_expiry_delta :: u16
  cu_htlc_minimum_msat :: u64
  cu_fee_base_msat :: u32
  cu_fee_proportional_millionths :: u32
  cu_htlc_maximum_msat :: u64

text \<open>\<^verbatim>\<open>update_local_channel\<close> up to the update it hands to the signer: \<open>now\<close> is
  \<^verbatim>\<open>time_now().ts.tv_sec\<close> as stored in the \<^verbatim>\<open>u32 timestamp\<close>, \<open>direction\<close> is 0 or 1.
  The signer's reply, the copy sent to the peer of a channel that is not public and the
  call of \<^verbatim>\<open>handle_channel_update\<close> lie outside gossipd.c.\<close>

definition update_local_channel ::
  "u32 \<Rightarrow> 'k routing_state \<Rightarrow> 'k chan \<Rightarrow> nat \<Rightarrow> bool \<Rightarrow> u16 \<Rightarrow> u64 \<Rightarrow> u32 \<Rightarrow> u32 \<Rightarrow> u64 \<Rightarrow> cupdate" where
  "update_local_channel now rs c direction disable cltv_expiry_delta htlc_minimum_msat
       fee_base_msat fee_proportional_millionths htlc_maximum_msat =
     (let timestamp = now;
          timestamp = (if is_halfchan_defined (half c direction)
                          \<and> timestamp = last_timestamp (half c direction)
                       then timestamp + 1 else timestamp);
          channel_flags = of_nat direction;
          channel_flags = (if disable then channel_flags OR ROUTING_FLAGS_DISABLED
                           else channel_flags);
          message_flags = 0 OR ROUTING_OPT_HTLC_MAX_MSAT
      in \<lparr>cu_chain_hash = chain_hash rs, cu_short_channel_id = chan_scid c,
          cu_timestamp = timestamp, cu_message_flags = message_flags,
          cu_channel_flags = channel_flags, cu_cltv_expiry_delta = cltv_expiry_delta,
          cu_htlc_minimum_msat = htlc_minimum_msat, cu_fee_base_msat = fee_base_msat,
          cu_fee_proportional_millionths = fee_proportional_millionths,
          cu_htlc_maximum_msat = htlc_maximum_msat\<rparr>)"

text \<open>The same computation in \<^verbatim>\<open>send_node_announcement\<close>, where \<open>last_timestamp\<close> is the
  \<^verbatim>\<open>s64\<close> of the node (\<open>-1\<close> when there is none) and the result is stored in a
  \<^verbatim>\<open>u32\<close>.\<close>

definition send_node_announcement_timestamp :: "u32 \<Rightarrow> int \<Rightarrow> u32" where
  "send_node_announcement_timestamp now last_ts =
     (if uint now \<le> last_ts then word_of_int (last_ts + 1) else now)"

subsection \<open>Events on a peer: \<^verbatim>\<open>owner_msg_in\<close> and the write loop\<close>

text \<open>The inbound messages whose handlers write to \<^verbatim>\<open>struct peer\<close>, each with the result
  of its parser, and the wake-up of the write loop, which runs \<^verbatim>\<open>dump_gossip\<close>. The
  other branches of \<^verbatim>\<open>owner_msg_in\<close> hand the message to the routing core or answer a
  ping and leave the fields of the peer that are modelled here as they are.\<close>

datatype event =
    Recv_query_short_channel_ids "(blkid \<times> blob) option"
  | Recv_reply_short_channel_ids_end "(blkid \<times> u8) option"
  | Recv_gossip_timestamp_filter "(blkid \<times> u32 \<times> u32) option"
  | Recv_query_channel_range "(blkid \<times> u32 \<times> u32) option"
  | Wake

text \<open>What the daemon is run with: the decoder and the compressor it links against, and
  the two developer knobs.\<close>

record config =
  cfg_decode_short_ids :: "blob \<Rightarrow> short_channel_id list option"
  cfg_deflate :: "blob \<Rightarrow> blob"
  cfg_max_scids_encode_bytes :: u32
  cfg_suppress_gossip :: bool

definition peer_event ::
  "config \<Rightarrow> ('k::linorder) routing_state \<Rightarrow> 'k peer \<Rightarrow> event \<Rightarrow>
   fail + ('k peer \<times> peer_msg list \<times> 'k master_msg list)" where
  "peer_event cfg rs peer ev =
     (case ev of
        Recv_query_short_channel_ids m \<Rightarrow>
          (case handle_query_short_channel_ids (cfg_decode_short_ids cfg) rs peer m of
             (peer', out) \<Rightarrow> Inr (peer', out, []))
      | Recv_reply_short_channel_ids_end m \<Rightarrow>
          Inr (handle_reply_short_channel_ids_end rs peer m)
      | Recv_gossip_timestamp_filter m \<Rightarrow>
          (case handle_gossip_timestamp_filter rs peer m of
             (peer', out) \<Rightarrow> Inr (peer', out, []))
      | Recv_query_channel_range m \<Rightarrow>
          (case handle_query_channel_range (cfg_deflate cfg) (cfg_max_scids_encode_bytes cfg) rs m of
             Inl e \<Rightarrow> Inl e
           | Inr out \<Rightarrow> Inr (peer, out, []))
      | Wake \<Rightarrow>
          (case dump_gossip (cfg_suppress_gossip cfg) rs peer of
             (peer', out, sent) \<Rightarrow> Inr (peer', out, [])))"

fun peer_events ::
  "config \<Rightarrow> ('k::linorder) routing_state \<Rightarrow> 'k peer \<Rightarrow> event list \<Rightarrow> fail + 'k peer" where
  "peer_events cfg rs peer [] = Inr peer"
| "peer_events cfg rs peer (ev # evs) =
     (case peer_event cfg rs peer ev of
        Inl e \<Rightarrow> Inl e
      | Inr (peer', out, mout) \<Rightarrow> peer_events cfg rs peer' evs)"

text \<open>An accepted filter: it parses and names our chain.\<close>

fun accepted_filter :: "'k routing_state \<Rightarrow> event \<Rightarrow> bool" where
  "accepted_filter rs (Recv_gossip_timestamp_filter (Some (chain, first_timestamp, timestamp_range))) =
     (chain = chain_hash rs)"
| "accepted_filter rs ev = False"

definition peer_busy :: "nat peer" where
  "peer_busy = peer0\<lparr>scid_queries := Some [1099511627776], scid_query_nodes := Some []\<rparr>"

definition cfg0 :: config where
  "cfg0 = \<lparr>cfg_decode_short_ids = (\<lambda>encoded. Some []), cfg_deflate = zlib_level9,
            cfg_max_scids_encode_bytes = UINT32_MAX, cfg_suppress_gossip = False\<rparr>"

definition peer_legacy :: "nat peer" where
  "peer_legacy = peer0\<lparr>gossip_queries_feature := False, gossip_timestamp_min := 0,
                       gossip_timestamp_max := UINT32_MAX\<rparr>"

definition rs_log :: "nat routing_state" where
  "rs_log = rs0\<lparr>broadcasts := [(4, 50, [8]), (6, 100, [9])], next_index := 7\<rparr>"

lemma next_broadcast_index: "last_index \<le> snd (next_broadcast es lo hi last_index)"
proof (induction es arbitrary: last_index)
  case Nil
  show ?case by simp
next
  case (Cons e es)
  obtain i ts payload where e: "e = (i, ts, payload)" by (cases e)
  show ?case
  proof (cases "i \<le> last_index")
    case True
    then show ?thesis using Cons.IH [of last_index] by (simp add: e)
  next
    case False
    then have "last_index \<le> i" by simp
    then show ?thesis using Cons.IH [of i] False by (auto simp: e)
  qed
qed

lemma maybe_queue_gossip_index:
  "broadcast_index peer \<le> broadcast_index (fst (maybe_queue_gossip sg rs peer))"
  using next_broadcast_index [of "broadcast_index peer" "broadcasts rs"
      "gossip_timestamp_min peer" "gossip_timestamp_max peer"]
  by (auto simp: maybe_queue_gossip_def Let_def split: prod.split option.split)

lemma create_next_scid_reply_index:
  "broadcast_index (fst (create_next_scid_reply rs peer)) = broadcast_index peer"
  by (simp add: create_next_scid_reply_def Let_def split: prod.split)

lemma dump_gossip_index:
  "broadcast_index peer \<le> broadcast_index (fst (dump_gossip sg rs peer))"
proof -
  obtain p1 out sent where c: "create_next_scid_reply rs peer = (p1, out, sent)"
    by (rule prod_cases3)
  have e: "broadcast_index p1 = broadcast_index peer"
    using create_next_scid_reply_index [of rs peer] by (simp add: c)
  show ?thesis
    using maybe_queue_gossip_index [of p1 sg rs] e
    by (auto simp: dump_gossip_def c split: prod.split)
qed

lemma handle_query_short_channel_ids_index:
  "broadcast_index (fst (handle_query_short_channel_ids d rs peer m)) = broadcast_index peer"
  by (simp add: handle_query_short_channel_ids_def split: option.split prod.split)

lemma handle_reply_short_channel_ids_end_index:
  "broadcast_index (fst (handle_reply_short_channel_ids_end rs peer m)) = broadcast_index peer"
  by (simp add: handle_reply_short_channel_ids_end_def split: option.split prod.split)

lemma handle_gossip_timestamp_filter_index:
  "broadcast_index (fst (handle_gossip_timestamp_filter rs peer m)) =
     (if accepted_filter rs (Recv_gossip_timestamp_filter m) then 0 else broadcast_index peer)"
  by (cases m) (auto simp: handle_gossip_timestamp_filter_def Let_def wake_gossip_out_def)

lemma peer_event_index:
  assumes "peer_event cfg rs peer ev = Inr (peer', out, mout)"
  shows "if accepted_filter rs ev then broadcast_index peer' = 0
         else broadcast_index peer \<le> broadcast_index peer'"
proof (cases ev)
  case (Recv_query_short_channel_ids m)
  then show ?thesis
    using assms handle_query_short_channel_ids_index [of "cfg_decode_short_ids cfg" rs peer m]
    by (auto simp: peer_event_def split: prod.splits)
next
  case (Recv_reply_short_channel_ids_end m)
  then show ?thesis
    using assms handle_reply_short_channel_ids_end_index [of rs peer m]
    by (auto simp: peer_event_def)
next
  case (Recv_gossip_timestamp_filter m)
  then show ?thesis
    using assms handle_gossip_timestamp_filter_index [of rs peer m]
    by (auto simp: peer_event_def split: prod.splits if_splits)
next
  case (Recv_query_channel_range m)
  then show ?thesis using assms by (auto simp: peer_event_def split: sum.splits)
next
  case Wake
  then show ?thesis
    using assms dump_gossip_index [of peer "cfg_suppress_gossip cfg" rs]
    by (auto simp: peer_event_def split: prod.splits)
qed

definition chan_x :: "nat chan" where
  "chan_x = \<lparr>chan_scid = 1099511627776,
     half0 = \<lparr>channel_update = Some [2], channel_flags = 0, last_timestamp = 1001\<rparr>,
     half1 = \<lparr>channel_update = None, channel_flags = 1, last_timestamp = 0\<rparr>,
     nodes0 = 3, nodes1 = 7, channel_announce = Some [1], chan_announced = True,
     local_disabled = False\<rparr>"

definition daemon0 :: "nat daemon" where
  "daemon0 = \<lparr>daemon_id = 3, peers = [peer0], rstate = rs0\<rparr>"

lemma find_update_first:
  assumes "find P xs = Some x" and "P (f x)"
  shows "find P (update_first P f xs) = Some (f x)"
  using assms by (induction xs) (auto split: if_splits)

lemma length_make_ping_wire: "length (make_ping_wire n l) = 6 + unat l"
  by (simp add: make_ping_wire_def towire_u16_def)

subsection \<open>Facts about peer teardown\<close>

definition disable_where :: "(short_channel_id \<Rightarrow> bool) \<Rightarrow> (short_channel_id \<times> 'k chan) list \<Rightarrow>
    (short_channel_id \<times> 'k chan) list" where
  "disable_where D m = map (\<lambda>(k, c). if D k then (k, c\<lparr>local_disabled := True\<rparr>) else (k, c)) m"

definition disable_hit :: "'k \<Rightarrow> 'k node \<Rightarrow> 'k routing_state \<Rightarrow> short_channel_id \<Rightarrow> bool" where
  "disable_hit me n rs s =
     (case get_channel rs s of None \<Rightarrow> False | Some c \<Rightarrow> other_node n c = me)"

lemma set_local_disabled_eq:
  "set_local_disabled s rs = rs\<lparr>chanmap := disable_where (\<lambda>k. k = s) (chanmap rs)\<rparr>"
  by (simp add: set_local_disabled_def disable_where_def)

lemma map_of_disable_where:
  "map_of (disable_where D m) k =
     map_option (\<lambda>c. if D k then c\<lparr>local_disabled := True\<rparr> else c) (map_of m k)"
  by (induction m) (auto simp: disable_where_def)

lemma disable_where_twice:
  "disable_where D1 (disable_where D2 m) = disable_where (\<lambda>k. D1 k \<or> D2 k) m"
  by (induction m) (auto simp: disable_where_def)

lemma disable_where_none: "disable_where (\<lambda>k. False) m = m"
  by (induction m) (auto simp: disable_where_def)

lemma disable_hit_disable_where:
  "disable_hit me n (rs\<lparr>chanmap := disable_where D (chanmap rs)\<rparr>) s = disable_hit me n rs s"
  by (cases "map_of (chanmap rs) s")
     (simp_all add: disable_hit_def get_channel_def map_of_disable_where other_node_def)

lemma peer_disable_loop_eq:
  "peer_disable_loop me n ss rs =
     rs\<lparr>chanmap := disable_where (\<lambda>k. k \<in> set ss \<and> disable_hit me n rs k) (chanmap rs)\<rparr>"
proof (induction ss arbitrary: rs)
  case Nil
  show ?case by (simp add: disable_where_none)
next
  case (Cons s ss)
  show ?case
  proof (cases "disable_hit me n rs s")
    case True
    then obtain c where c: "get_channel rs s = Some c" "other_node n c = me"
      by (auto simp: disable_hit_def split: option.splits)
    have "peer_disable_loop me n (s # ss) rs = peer_disable_loop me n ss (set_local_disabled s rs)"
      using c by simp
    also have "\<dots> = rs\<lparr>chanmap := disable_where
        (\<lambda>k. (k \<in> set ss \<and> disable_hit me n rs k) \<or> k = s) (chanmap rs)\<rparr>"
      by (simp add: Cons.IH set_local_disabled_eq disable_hit_disable_where disable_where_twice)
    also have "(\<lambda>k. (k \<in> set ss \<and> disable_hit me n rs k) \<or> k = s) =
        (\<lambda>k. k \<in> set (s # ss) \<and> disable_hit me n rs k)"
      using True by auto
    finally show ?thesis .
  next
    case False
    then have "peer_disable_loop me n (s # ss) rs = peer_disable_loop me n ss rs"
      by (auto simp: disable_hit_def split: option.splits)
    also have "\<dots> = rs\<lparr>chanmap := disable_where
        (\<lambda>k. k \<in> set ss \<and> disable_hit me n rs k) (chanmap rs)\<rparr>"
      by (rule Cons.IH)
    also have "(\<lambda>k. k \<in> set ss \<and> disable_hit me n rs k) =
        (\<lambda>k. k \<in> set (s # ss) \<and> disable_hit me n rs k)"
      using False by auto
    finally show ?thesis .
  qed
qed

lemma disable_where_member:
  assumes "(s, c') \<in> set (disable_where D m)"
  shows "\<exists>c. (s, c) \<in> set m \<and> c' = (if D s then c\<lparr>local_disabled := True\<rparr> else c)"
  using assms by (auto simp: disable_where_def split: if_splits)

text \<open>The shape of the graph the routing core keeps: one entry per short channel id, and
  every channel between the two given nodes is listed among the channels of the node
  \<open>a\<close>, which the node map holds under its id.\<close>

definition shared_channels_linked :: "'k routing_state \<Rightarrow> 'k \<Rightarrow> 'k \<Rightarrow> bool" where
  "shared_channels_linked rs a b =
     (distinct (map fst (chanmap rs)) \<and>
      (\<forall>(s, c) \<in> set (chanmap rs).
         (nodes0 c = a \<and> nodes1 c = b) \<or> (nodes0 c = b \<and> nodes1 c = a) \<longrightarrow>
           (case get_node rs a of
              None \<Rightarrow> False
            | Some n \<Rightarrow> node_id n = a \<and> s \<in> set (chans n))))"

definition node_peer :: "nat node" where
  "node_peer = \<lparr>node_id = 7, chans = [1099511627776], node_announcement = Some [4],
                 node_announcement_index = 2\<rparr>"

definition node_self :: "nat node" where
  "node_self = \<lparr>node_id = 3, chans = [1099511627776], node_announcement = None,
                 node_announcement_index = 0\<rparr>"

definition rs_chan :: "nat routing_state" where
  "rs_chan = rs0\<lparr>chanmap := [(1099511627776, chan_x)], nodes := [(3, node_self), (7, node_peer)]\<rparr>"

definition daemon_chan :: "nat daemon" where
  "daemon_chan = \<lparr>daemon_id = 3, peers = [peer0], rstate = rs_chan\<rparr>"

subsection \<open>Facts about the encoder\<close>

lemma encode_fold:
  "foldl encode_add_short_channel_id enc ss = enc @ concat (map towire_short_channel_id ss)"
  by (induction ss arbitrary: enc) (simp_all add: encode_add_short_channel_id_def)

lemma zencode_scids_eq:
  "zencode_scids deflate raw =
     (if length (deflate raw) \<le> length raw then Some (deflate raw) else None)"
  by (simp add: zencode_scids_def compress2_def Z_OK_def Z_BUF_ERROR_def)

lemma encode_scids_eq:
  "encode_scids deflate mx ss maxb =
     (let raw = concat (map towire_short_channel_id ss);
          enc = (if length (deflate raw) \<le> length raw then SHORTIDS_ZLIB # deflate raw
                 else SHORTIDS_UNCOMPRESSED # raw)
      in Inr (check_length mx enc maxb, enc))"
  by (simp add: encode_scids_def encode_fold encode_short_channel_ids_start_def
      encode_short_channel_ids_end_def zencode_scids_eq Let_def)

lemma towire_scid_1_0_0:
  "towire_short_channel_id (mk_short_channel_id 1 0 0) = [0, 0, 1, 0, 0, 0, 0, 0]"
  by (simp add: towire_short_channel_id_def mk_short_channel_id_def)

lemma towire_scid_1_0_1:
  "towire_short_channel_id (mk_short_channel_id 1 0 1) = [0, 0, 1, 0, 0, 0, 0, 1]"
  by (simp add: towire_short_channel_id_def mk_short_channel_id_def)

subsection \<open>The reply to a query, wake-up by wake-up\<close>

lemma slice_split:
  assumes "i \<le> i'"
  shows "concat (map f (take (i' - i) (drop i q))) @ concat (map f (drop i' q)) =
           concat (map f (drop i q))"
proof -
  have "drop i q = take (i' - i) (drop i q) @ drop (i' - i) (drop i q)"
    by (rule append_take_drop_id [symmetric])
  also have "drop (i' - i) (drop i q) = drop i' q" using assms by simp
  finally have "drop i q = take (i' - i) (drop i q) @ drop i' q" .
  then have "concat (map f (drop i q)) = concat (map f (take (i' - i) (drop i q) @ drop i' q))"
    by simp
  then show ?thesis by simp
qed

lemma slice_all: "take (length q - i) (drop i q) = drop i q"
  by simp

lemma scid_query_output_idle: "scid_queries peer = None \<Longrightarrow> scid_query_output rs peer = []"
  by (subst scid_query_output.simps) simp

lemma scid_query_output_step:
  assumes "scid_queries peer \<noteq> None" "create_next_scid_reply rs peer = (peer', out, True)"
  shows "scid_query_output rs peer = out @ scid_query_output rs peer'"
  using assms by (subst scid_query_output.simps) auto

abbreviation reply_end :: "'k routing_state \<Rightarrow> peer_msg" where
  "reply_end rs \<equiv> Reply_short_channel_ids_end (chain_hash rs) True"

lemma scid_query_output_nodes:
  fixes peer :: "('k::linorder) peer"
  assumes "scid_queries peer = Some q" "scid_query_idx peer = length q"
    "scid_query_nodes peer = Some ns" "scid_query_nodes_idx peer = j" "j \<le> length ns"
  shows "scid_query_output rs peer = concat (map (node_msgs rs) (drop j ns)) @ [reply_end rs]"
  using assms
proof (induction "length ns - j" arbitrary: peer j rule: less_induct)
  case less
  have q: "scid_queries peer \<noteq> None" using less.prems(1) by simp
  have l1: "scid_reply_chans rs (tal_list (scid_queries peer)) (scid_query_idx peer) False []
      (scid_query_nodes peer) = (length q, False, [], Some ns)"
    using less.prems by (simp add: tal_list_def scid_reply_chans_done)
  have qn2: "Some ns = (if scid_query_idx peer \<noteq> length (tal_list (scid_queries peer)) \<and>
                       length q = length (tal_list (scid_queries peer))
                    then map_option uniquify_node_ids (Some ns) else Some ns)"
    using less.prems by (simp add: tal_list_def)
  from scid_reply_nodes_run [OF less.prems(5), of rs "[]"] obtain j' s' where
    r: "scid_reply_nodes rs ns j False [] =
          (j', s', concat (map (node_msgs rs) (take (j' - j) (drop j ns))))"
    and b: "j \<le> j'" "j' \<le> length ns" and s: "\<not> s' \<longrightarrow> j' = length ns" "s' \<longrightarrow> j < j'"
    by auto
  have l2: "scid_reply_nodes rs (tal_list (Some ns)) (scid_query_nodes_idx peer) False [] =
          (j', s', concat (map (node_msgs rs) (take (j' - j) (drop j ns))))"
    using r less.prems(4) by (simp add: tal_list_def)
  note cn = create_next_scid_reply_unfold [OF q l1 qn2 l2]
  show ?case
  proof (cases "j' = length ns")
    case True
    let ?p = "peer\<lparr>scid_queries := None, scid_query_idx := 0, scid_query_nodes := None,
                  scid_query_nodes_idx := 0\<rparr>"
    have "create_next_scid_reply rs peer =
        (?p, concat (map (node_msgs rs) (drop j ns)) @ [reply_end rs], True)"
      using cn True by (simp add: tal_list_def)
    from scid_query_output_step [OF q this] show ?thesis
      by (simp add: scid_query_output_idle)
  next
    case False
    then have s': "s'" using s(1) by blast
    let ?p = "peer\<lparr>scid_query_nodes := Some ns, scid_query_idx := length q,
                    scid_query_nodes_idx := j'\<rparr>"
    have c: "create_next_scid_reply rs peer =
        (?p, concat (map (node_msgs rs) (take (j' - j) (drop j ns))), True)"
      using cn False s' by (simp add: tal_list_def)
    have "scid_query_output rs ?p = concat (map (node_msgs rs) (drop j' ns)) @ [reply_end rs]"
    proof (rule less.hyps)
      show "length ns - j' < length ns - j" using s(2) s' b False by simp
      show "scid_queries ?p = Some q" using less.prems(1) by simp
      show "scid_query_idx ?p = length q" by simp
      show "scid_query_nodes ?p = Some ns" by simp
      show "scid_query_nodes_idx ?p = j'" by simp
      show "j' \<le> length ns" by (rule b(2))
    qed
    then show ?thesis
      using scid_query_output_step [OF q c] slice_split [OF b(1), of "node_msgs rs" ns]
      by simp
  qed
qed


lemma scid_query_output_chans:
  fixes peer :: "('k::linorder) peer"
  assumes "scid_queries peer = Some q" "scid_query_idx peer = i" "i < length q"
    "scid_query_nodes peer = Some ns" "scid_query_nodes_idx peer = 0"
  shows "scid_query_output rs peer =
           concat (map (scid_chan_msgs rs) (drop i q))
           @ concat (map (node_msgs rs)
               (uniquify_node_ids (ns @ concat (map (scid_chan_nodes rs) (drop i q)))))
           @ [reply_end rs]"
  using assms
proof (induction "length q - i" arbitrary: peer i ns rule: less_induct)
  case less
  have q: "scid_queries peer \<noteq> None" using less.prems(1) by simp
  have le: "i \<le> length q" using less.prems(3) by simp
  from scid_reply_chans_run [OF le, of rs "[]" "Some ns"] obtain i' s1 qn1 where
    r: "scid_reply_chans rs q i False [] (Some ns) =
          (i', s1, concat (map (scid_chan_msgs rs) (take (i' - i) (drop i q))), qn1)"
    and b: "i \<le> i'" "i' \<le> length q"
    and n1: "tal_list qn1 = ns @ concat (map (scid_chan_nodes rs) (take (i' - i) (drop i q)))"
    and ns1: "\<not> s1 \<longrightarrow> i' = length q \<and> qn1 = Some ns"
    and s1: "s1 \<longrightarrow> i < i' \<and> qn1 \<noteq> None \<and> length (tal_list qn1) = length ns + 2"
    by (auto simp: tal_list_def)
  let ?o1 = "concat (map (scid_chan_msgs rs) (take (i' - i) (drop i q)))"
  have l1: "scid_reply_chans rs (tal_list (scid_queries peer)) (scid_query_idx peer) False []
      (scid_query_nodes peer) = (i', s1, ?o1, qn1)"
    using r less.prems by (simp add: tal_list_def)
  define qn2 where "qn2 =
    (if scid_query_idx peer \<noteq> length (tal_list (scid_queries peer)) \<and>
        i' = length (tal_list (scid_queries peer))
     then map_option uniquify_node_ids qn1 else qn1)"
  have qn2_last: "i' = length q \<Longrightarrow> qn2 = map_option uniquify_node_ids qn1"
    and qn2_more: "i' \<noteq> length q \<Longrightarrow> qn2 = qn1"
    using less.prems(1,2,3) by (simp_all add: qn2_def tal_list_def)
  show ?case
  proof (cases s1)
    case True
    then have lt: "i < i'" and some: "qn1 \<noteq> None"
      and len: "length (tal_list qn1) = length ns + 2" using s1 by simp_all
    then obtain ns1 where ns1e: "qn1 = Some ns1" by auto
    have ns1: "ns1 = ns @ concat (map (scid_chan_nodes rs) (take (i' - i) (drop i q)))"
      using n1 ns1e by (simp add: tal_list_def)
    have ne1: "ns1 \<noteq> []" using len ns1e by (auto simp: tal_list_def)
    have ne2: "tal_list qn2 \<noteq> []"
    proof (cases "i' = length q")
      case True
      then show ?thesis using ne1 ns1e by (simp add: qn2_last tal_list_def uniquify_node_ids_Nil)
    next
      case False
      then show ?thesis using ne1 ns1e by (simp add: qn2_more tal_list_def)
    qed
    have l2: "scid_reply_nodes rs (tal_list qn2) (scid_query_nodes_idx peer) s1 ?o1 =
        (0, True, ?o1)"
      using True less.prems(5) by (simp add: scid_reply_nodes_sent)
    let ?p = "peer\<lparr>scid_query_nodes := qn2, scid_query_idx := i', scid_query_nodes_idx := 0\<rparr>"
    have c: "create_next_scid_reply rs peer = (?p, ?o1, True)"
      using create_next_scid_reply_unfold [OF q l1 qn2_def l2] ne2 by simp
    note step = scid_query_output_step [OF q c]
    show ?thesis
    proof (cases "i' = length q")
      case last: True
      have "scid_query_output rs ?p =
          concat (map (node_msgs rs) (drop 0 (uniquify_node_ids ns1))) @ [reply_end rs]"
        by (rule scid_query_output_nodes)
           (simp_all add: less.prems(1) last qn2_last ns1e)
      then show ?thesis using step last by (simp add: ns1)
    next
      case more: False
      then have lt': "i' < length q" using b(2) by simp
      have "scid_query_output rs ?p =
          concat (map (scid_chan_msgs rs) (drop i' q))
          @ concat (map (node_msgs rs)
              (uniquify_node_ids (ns1 @ concat (map (scid_chan_nodes rs) (drop i' q)))))
          @ [reply_end rs]"
      proof (rule less.hyps)
        show "length q - i' < length q - i" using lt lt' by simp
        show "scid_queries ?p = Some q" using less.prems(1) by simp
        show "scid_query_idx ?p = i'" by simp
        show "i' < length q" by (rule lt')
        show "scid_query_nodes ?p = Some ns1" by (simp add: qn2_more [OF more] ns1e)
        show "scid_query_nodes_idx ?p = 0" by simp
      qed
      then show ?thesis
        using step slice_split [OF b(1), of "scid_chan_msgs rs" q]
          slice_split [OF b(1), of "scid_chan_nodes rs" q]
        by (simp add: ns1)
    qed
  next
    case False
    then have last: "i' = length q" and qn1: "qn1 = Some ns" using ns1 by simp_all
    have nil: "concat (map (scid_chan_nodes rs) (drop i q)) = []"
      using n1 qn1 last by (simp add: tal_list_def)
    let ?U = "uniquify_node_ids ns"
    have qn2: "qn2 = Some ?U" using qn2_last [OF last] qn1 by simp
    from scid_reply_nodes_run [of 0 ?U rs ?o1] obtain j' s2 where
      r2: "scid_reply_nodes rs ?U 0 False ?o1 =
            (j', s2, ?o1 @ concat (map (node_msgs rs) (take (j' - 0) (drop 0 ?U))))"
      and b2: "j' \<le> length ?U" and s2: "\<not> s2 \<longrightarrow> j' = length ?U"
      by auto
    let ?o2 = "?o1 @ concat (map (node_msgs rs) (take j' ?U))"
    have l2: "scid_reply_nodes rs (tal_list qn2) (scid_query_nodes_idx peer) s1 ?o1 =
        (j', s2, ?o2)"
      using r2 False less.prems(5) by (simp add: qn2 tal_list_def)
    note cn = create_next_scid_reply_unfold [OF q l1 qn2_def l2]
    have o1: "?o1 = concat (map (scid_chan_msgs rs) (drop i q))" using last by simp
    show ?thesis
    proof (cases "j' = length ?U")
      case True
      let ?p = "peer\<lparr>scid_queries := None, scid_query_idx := 0, scid_query_nodes := None,
                  scid_query_nodes_idx := 0\<rparr>"
      have "create_next_scid_reply rs peer = (?p, ?o2 @ [reply_end rs], True)"
        using cn True by (simp add: qn2 tal_list_def)
      from scid_query_output_step [OF q this] show ?thesis
        using True by (simp add: scid_query_output_idle nil last)
    next
      case more: False
      then have t: "s2" using s2 by blast
      let ?p = "peer\<lparr>scid_query_nodes := qn2, scid_query_idx := i', scid_query_nodes_idx := j'\<rparr>"
      have c: "create_next_scid_reply rs peer = (?p, ?o2, True)"
        using cn more t by (simp add: qn2 tal_list_def)
      have "scid_query_output rs ?p =
          concat (map (node_msgs rs) (drop j' ?U)) @ [reply_end rs]"
        by (rule scid_query_output_nodes)
           (simp_all add: less.prems(1) last qn2 b2)
      then show ?thesis
        using scid_query_output_step [OF q c] slice_split [of 0 j' "node_msgs rs" ?U]
        by (simp add: nil last)
    qed
  qed
qed

definition chan_y :: "nat chan" where
  "chan_y = \<lparr>chan_scid = 1099511627777,
     half0 = \<lparr>channel_update = Some [12], channel_flags = 0, last_timestamp = 900\<rparr>,
     half1 = \<lparr>channel_update = Some [13], channel_flags = 1, last_timestamp = 901\<rparr>,
     nodes0 = 7, nodes1 = 9, channel_announce = Some [11], chan_announced = True,
     local_disabled = False\<rparr>"

definition node_far :: "nat node" where
  "node_far = \<lparr>node_id = 9, chans = [1099511627777], node_announcement = Some [5],
                node_announcement_index = 3\<rparr>"

definition rs_two :: "nat routing_state" where
  "rs_two = rs0\<lparr>chanmap := [(1099511627776, chan_x), (1099511627777, chan_y)],
                 nodes := [(3, node_self), (7, node_peer), (9, node_far)]\<rparr>"

subsection \<open>Facts about the scan of the channel map\<close>

lemma blocknum_unat: "unat (short_channel_id_blocknum s) = unat s div 2 ^ 40"
proof -
  have "unat s < 2 ^ LENGTH(64)" by (rule unsigned_less)
  then have "unat s < 2 ^ 64" by simp
  then have "unat s div 2 ^ 40 < 2 ^ 24" by (simp add: less_mult_imp_div_less)
  then have "(unat s div 2 ^ 40) mod 2 ^ 32 = unat s div 2 ^ 40" by simp
  then show ?thesis
    by (simp add: short_channel_id_blocknum_def unsigned_ucast_eq unat_drop_bit_eq
        drop_bit_eq_div take_bit_eq_mod unat_div)
qed

lemma blocknum_mono: "s \<le> s' \<Longrightarrow> short_channel_id_blocknum s \<le> short_channel_id_blocknum s'"
  by (simp add: word_le_nat_alt blocknum_unat div_le_mono)

lemma mask24: "(0xFFFFFF :: u64) = mask 24"
  by (simp add: mask_eq_exp_minus_1)

lemma mk_block_unat:
  assumes "unat b < 2 ^ 24"
  shows "unat (mk_short_channel_id b 0 0) = unat b * 2 ^ 40"
proof -
  have u: "unat (ucast b :: u64) = unat b"
    using assms by (simp add: unsigned_ucast_eq take_bit_eq_mod)
  have "(ucast b :: u64) < 2 ^ 24" using assms u by (simp add: word_less_nat_alt)
  then have m: "(ucast b :: u64) AND mask 24 = ucast b" by (rule less_mask_eq)
  have "unat b * 2 ^ 40 < 2 ^ 64" using assms by simp
  then have "(unat b * 2 ^ 40) mod 2 ^ 64 = unat b * 2 ^ 40" by simp
  then show ?thesis
    using u
    by (simp add: mk_short_channel_id_def mask24 m push_bit_eq_mult unat_word_ariths)
qed

text \<open>Where the scan of \<^verbatim>\<open>queue_channel_ranges\<close> starts.\<close>

definition range_start :: "u32 \<Rightarrow> short_channel_id" where
  "range_start first_blocknum =
     (if first_blocknum = 0 then mk_short_channel_id 1 0 0
      else mk_short_channel_id first_blocknum 0 0) - 1"

lemma range_start_less:
  assumes "unat first_blocknum < 2 ^ 24"
  shows "(range_start first_blocknum < s) =
           (max 1 (unat first_blocknum) \<le> unat (short_channel_id_blocknum s))"
proof -
  define b :: u32 where "b = (if first_blocknum = 0 then 1 else first_blocknum)"
  have ub: "unat b = max 1 (unat first_blocknum)"
  proof (cases "first_blocknum = 0")
    case True
    then show ?thesis by (simp add: b_def)
  next
    case False
    then have "unat first_blocknum \<noteq> 0" by (simp add: unat_eq_0)
    then show ?thesis using False by (simp add: b_def)
  qed
  have lt: "unat b < 2 ^ 24" using assms ub by simp
  have mk: "unat (mk_short_channel_id b 0 0) = unat b * 2 ^ 40" using lt by (rule mk_block_unat)
  have "unat (mk_short_channel_id b 0 0) \<noteq> 0" using mk ub by simp
  then have nz: "mk_short_channel_id b 0 0 \<noteq> 0" by (simp add: unat_eq_0)
  have rs: "range_start first_blocknum = mk_short_channel_id b 0 0 - 1"
    by (simp add: range_start_def b_def)
  have "unat (range_start first_blocknum) = unat b * 2 ^ 40 - 1"
    using unat_minus_one [OF nz] mk by (simp add: rs)
  then have "(range_start first_blocknum < s) = (unat b * 2 ^ 40 - 1 < unat s)"
    by (simp add: word_less_nat_alt)
  also have "\<dots> = (unat b * 2 ^ 40 \<le> unat s)" using ub by auto
  also have "\<dots> = (unat b \<le> unat s div 2 ^ 40)"
    by (simp add: less_eq_div_iff_mult_less_eq)
  finally show ?thesis by (simp add: ub blocknum_unat)
qed

lemma channel_range_scan_set:
  "\<exists>ss. channel_range_scan m s limit enc = foldl encode_add_short_channel_id enc ss
        \<and> set ss = {k \<in> fst ` set m. s < k \<and> short_channel_id_blocknum k < limit}"
proof (induction m s limit enc rule: channel_range_scan.induct)
  case (1 m s limit enc)
  show ?case
  proof (cases "uintmap_after m s")
    case None
    have "{k \<in> fst ` set m. s < k \<and> short_channel_id_blocknum k < limit} = {}"
      using uintmap_after_None [OF None] by auto
    moreover have "channel_range_scan m s limit enc = enc"
      using None by (subst channel_range_scan.simps) simp
    ultimately show ?thesis by (intro exI [of _ "[]"]) simp
  next
    case (Some s')
    note a = uintmap_after_Some [OF Some]
    show ?thesis
    proof (cases "limit \<le> short_channel_id_blocknum s'")
      case True
      have "{k \<in> fst ` set m. s < k \<and> short_channel_id_blocknum k < limit} = {}"
      proof -
        have "\<not> short_channel_id_blocknum k < limit" if "k \<in> fst ` set m" "s < k" for k
        proof -
          have "s' \<le> k" using a(3) that by blast
          then have "short_channel_id_blocknum s' \<le> short_channel_id_blocknum k"
            by (rule blocknum_mono)
          then show ?thesis using True by simp
        qed
        then show ?thesis by blast
      qed
      moreover have "channel_range_scan m s limit enc = enc"
        using Some True by (subst channel_range_scan.simps) simp
      ultimately show ?thesis by (intro exI [of _ "[]"]) simp
    next
      case False
      from "1.IH" [OF Some False] obtain ss where
        r: "channel_range_scan m s' limit (encode_add_short_channel_id enc s') =
              foldl encode_add_short_channel_id (encode_add_short_channel_id enc s') ss"
        and st: "set ss = {k \<in> fst ` set m. s' < k \<and> short_channel_id_blocknum k < limit}"
        by blast
      have "channel_range_scan m s limit enc = foldl encode_add_short_channel_id enc (s' # ss)"
        using Some False r by (subst channel_range_scan.simps) simp
      moreover have "set (s' # ss) =
          {k \<in> fst ` set m. s < k \<and> short_channel_id_blocknum k < limit}"
      proof (intro equalityI subsetI)
        fix k assume "k \<in> set (s' # ss)"
        then show "k \<in> {k \<in> fst ` set m. s < k \<and> short_channel_id_blocknum k < limit}"
          using a(1,2) False st by (auto simp: not_le)
      next
        fix k assume k: "k \<in> {k \<in> fst ` set m. s < k \<and> short_channel_id_blocknum k < limit}"
        then have "s' \<le> k" using a(3) by blast
        then have "k = s' \<or> s' < k" by auto
        then show "k \<in> set (s' # ss)" using k st by auto
      qed
      ultimately show ?thesis by blast
    qed
  qed
qed

text \<open>The short channel ids of the graph whose block lies in \<open>[lo, hi)\<close>.\<close>

definition range_scids :: "'k routing_state \<Rightarrow> nat \<Rightarrow> nat \<Rightarrow> short_channel_id set" where
  "range_scids rs lo hi =
     {k \<in> fst ` set (chanmap rs).
        lo \<le> unat (short_channel_id_blocknum k) \<and> unat (short_channel_id_blocknum k) < hi}"

text \<open>The messages \<open>out\<close> are replies that carry, one by one, the encodings of the
  lists \<open>sss\<close>.\<close>

definition replies_encode ::
  "(blob \<Rightarrow> blob) \<Rightarrow> u32 \<Rightarrow> 'k routing_state \<Rightarrow> peer_msg list \<Rightarrow> short_channel_id list list \<Rightarrow> bool" where
  "replies_encode deflate mx rs out sss =
     list_all2 (\<lambda>msg ss. \<exists>f n enc. msg = Reply_channel_range (chain_hash rs) f n 1 enc
                    \<and> encode_scids deflate mx ss 65490 = Inr (True, enc)) out sss"

text \<open>The ids of one block fit into a reply.\<close>

definition block_fits :: "(blob \<Rightarrow> blob) \<Rightarrow> u32 \<Rightarrow> 'k routing_state \<Rightarrow> u32 \<Rightarrow> bool" where
  "block_fits deflate mx rs b = (\<exists>enc. channel_range_encoded deflate mx rs b 1 = Inr (True, enc))"

lemma mk_block_unat_mod:
  "unat (mk_short_channel_id b 0 0) = (unat b mod 2 ^ 24) * 2 ^ 40"
proof -
  have "unat b < 2 ^ LENGTH(32)" by (rule unsigned_less)
  then have "unat b < 2 ^ 64" by simp
  then have u: "unat (ucast b :: u64) = unat b"
    by (simp add: unsigned_ucast_eq take_bit_eq_mod)
  have m: "unat ((ucast b :: u64) AND mask 24) = unat b mod 2 ^ 24"
    by (simp add: take_bit_eq_mask [symmetric] take_bit_eq_mod unat_mod u)
  have "(unat b mod 2 ^ 24) * 2 ^ 40 < (2 :: nat) ^ 24 * 2 ^ 40"
    by (intro mult_strict_right_mono) simp_all
  then have "(unat b mod 2 ^ 24) * 2 ^ 40 < (2 :: nat) ^ 64" by simp
  then have "((unat b mod 2 ^ 24) * 2 ^ 40) mod 2 ^ 64 = (unat b mod 2 ^ 24) * 2 ^ 40" by simp
  then show ?thesis
    using m
    by (simp add: mk_short_channel_id_def mask24 push_bit_eq_mult unat_word_ariths)
qed

lemma range_start_block:
  assumes "range_start first_blocknum < k"
  shows "1 \<le> unat (short_channel_id_blocknum k)"
proof -
  define b :: u32 where "b = (if first_blocknum = 0 then 1 else first_blocknum)"
  define m where "m = unat b mod 2 ^ 24"
  have rs: "range_start first_blocknum = mk_short_channel_id b 0 0 - 1"
    by (simp add: range_start_def b_def)
  have mk: "unat (mk_short_channel_id b 0 0) = m * 2 ^ 40"
    by (simp add: mk_block_unat_mod m_def)
  have nz: "mk_short_channel_id b 0 0 \<noteq> 0"
  proof
    assume "mk_short_channel_id b 0 0 = 0"
    then have "range_start first_blocknum = - 1" by (simp add: rs)
    then show False using assms by simp
  qed
  then have "m \<noteq> 0" using mk by (auto simp: unat_eq_0 [symmetric])
  then have "2 ^ 40 \<le> m * 2 ^ 40" by simp
  moreover have "unat (range_start first_blocknum) = m * 2 ^ 40 - 1"
    using unat_minus_one [OF nz] mk by (simp add: rs)
  moreover have "unat (range_start first_blocknum) < unat k"
    using assms by (simp add: word_less_nat_alt)
  ultimately have "2 ^ 40 \<le> unat k" by linarith
  then have "1 \<le> unat k div 2 ^ 40" by (simp add: less_eq_div_iff_mult_less_eq)
  then show ?thesis by (simp add: blocknum_unat)
qed

lemma blocknum_less: "unat (short_channel_id_blocknum k) < 2 ^ 24"
proof -
  have "unat k < 2 ^ LENGTH(64)" by (rule unsigned_less)
  then have "unat k < 2 ^ 64" by simp
  then have "unat k div 2 ^ 40 < 2 ^ 24" by (simp add: less_mult_imp_div_less)
  then show ?thesis by (simp add: blocknum_unat)
qed

text \<open>The ids the scan of \<^verbatim>\<open>queue_channel_ranges\<close> collects.\<close>

definition scanned :: "'k routing_state \<Rightarrow> u32 \<Rightarrow> u32 \<Rightarrow> short_channel_id set" where
  "scanned rs first_blocknum number_of_blocks =
     {k \<in> fst ` set (chanmap rs).
        range_start first_blocknum < k
        \<and> short_channel_id_blocknum k < first_blocknum + number_of_blocks}"

lemma channel_range_encoded_scanned:
  "\<exists>ss. channel_range_encoded deflate mx rs first_blocknum number_of_blocks =
           encode_scids deflate mx ss 65490
       \<and> set ss = scanned rs first_blocknum number_of_blocks"
proof -
  let ?lim = "first_blocknum + number_of_blocks"
  from channel_range_scan_set [of "chanmap rs" "range_start first_blocknum" ?lim
      encode_short_channel_ids_start]
  obtain ss where
    sc: "channel_range_scan (chanmap rs) (range_start first_blocknum) ?lim
           encode_short_channel_ids_start = foldl encode_add_short_channel_id
           encode_short_channel_ids_start ss"
    and st: "set ss = {k \<in> fst ` set (chanmap rs).
                range_start first_blocknum < k \<and> short_channel_id_blocknum k < ?lim}"
    by blast
  have "channel_range_encoded deflate mx rs first_blocknum number_of_blocks =
      encode_scids deflate mx ss 65490"
    using sc by (simp add: channel_range_encoded_def Let_def range_start_def encode_scids_def)
  then show ?thesis using st by (auto simp: scanned_def)
qed

lemma scanned_exact:
  assumes "unat first_blocknum < 2 ^ 24"
    and "unat first_blocknum + unat number_of_blocks < 2 ^ 32"
  shows "scanned rs first_blocknum number_of_blocks =
           range_scids rs (max 1 (unat first_blocknum))
             (unat first_blocknum + unat number_of_blocks)"
proof -
  have "unat first_blocknum + unat number_of_blocks < 2 ^ LENGTH(32)" using assms(2) by simp
  then have ul: "unat (first_blocknum + number_of_blocks) =
      unat first_blocknum + unat number_of_blocks"
    by (simp only: unat_add_lem [symmetric])
  have a: "\<And>k. (range_start first_blocknum < k) =
      (max 1 (unat first_blocknum) \<le> unat (short_channel_id_blocknum k))"
    by (rule range_start_less [OF assms(1)])
  have b: "\<And>k. (short_channel_id_blocknum k < first_blocknum + number_of_blocks) =
      (unat (short_channel_id_blocknum k) < unat first_blocknum + unat number_of_blocks)"
    by (simp add: word_less_nat_alt ul)
  show ?thesis unfolding scanned_def range_scids_def a b by simp
qed

lemma scanned_upper: "scanned rs first_blocknum number_of_blocks \<subseteq> range_scids rs 1 (2 ^ 24)"
  using range_start_block blocknum_less by (fastforce simp: scanned_def range_scids_def)

lemma range_scids_cap:
  assumes "2 ^ 24 \<le> hi"
  shows "range_scids rs lo hi = range_scids rs lo (2 ^ 24)"
proof -
  have "\<And>k. unat (short_channel_id_blocknum k) < hi"
    using blocknum_less assms by (meson less_le_trans)
  then show ?thesis using blocknum_less by (auto simp: range_scids_def)
qed

lemma range_scids_high:
  assumes "2 ^ 24 \<le> lo"
  shows "range_scids rs lo hi = {}"
proof -
  have "\<And>k. \<not> lo \<le> unat (short_channel_id_blocknum k)"
    using blocknum_less [of] assms by (meson less_le_trans not_less)
  then show ?thesis by (auto simp: range_scids_def)
qed


lemma encode_scids_Inr: "\<exists>ok enc. encode_scids deflate mx ss maxb = Inr (ok, enc)"
  by (simp add: encode_scids_eq Let_def)

lemma range_scids_split:
  assumes "lo \<le> mid" "mid \<le> hi"
  shows "range_scids rs lo mid \<union> range_scids rs mid hi = range_scids rs lo hi"
  using assms by (auto simp: range_scids_def)

lemma range_scids_empty: "hi \<le> lo \<Longrightarrow> range_scids rs lo hi = {}"
  by (auto simp: range_scids_def)

lemma replies_encode_append:
  "replies_encode deflate mx rs out1 sss1 \<Longrightarrow> replies_encode deflate mx rs out2 sss2 \<Longrightarrow>
   replies_encode deflate mx rs (out1 @ out2) (sss1 @ sss2)"
  by (simp add: replies_encode_def list_all2_appendI)

text \<open>What the replies to a range may hold at most: the ids of the range when it ends
  at a block height a short channel id can hold, any id from block 1 on otherwise
  (\<^verbatim>\<open>mk_short_channel_id\<close> keeps 24 bits of the block where the scan starts).\<close>

definition range_bound :: "'k routing_state \<Rightarrow> nat \<Rightarrow> nat \<Rightarrow> short_channel_id set" where
  "range_bound rs lo hi = (if hi \<le> 2 ^ 24 then range_scids rs lo hi else range_scids rs 1 (2 ^ 24))"

lemma range_scids_mono:
  "lo \<le> lo' \<Longrightarrow> hi' \<le> hi \<Longrightarrow> range_scids rs lo' hi' \<subseteq> range_scids rs lo hi"
  by (auto simp: range_scids_def)

lemma range_scids_bound: "1 \<le> lo \<Longrightarrow> range_scids rs lo hi \<subseteq> range_bound rs lo hi"
  using blocknum_less by (auto simp: range_bound_def range_scids_def)

lemma range_bound_mono:
  assumes "1 \<le> lo" "lo \<le> lo'" "hi' \<le> hi"
  shows "range_bound rs lo' hi' \<subseteq> range_bound rs lo hi"
proof (cases "hi \<le> 2 ^ 24")
  case True
  then show ?thesis using assms by (simp add: range_bound_def range_scids_mono)
next
  case False
  have "range_scids rs lo' hi' \<subseteq> range_scids rs 1 (2 ^ 24)" if "hi' \<le> 2 ^ 24"
    using that assms by (intro range_scids_mono) simp_all
  then show ?thesis using False by (simp add: range_bound_def)
qed

lemma scanned_bounds:
  assumes "unat first_blocknum + unat number_of_blocks < 2 ^ 32"
  shows "range_scids rs (max 1 (unat first_blocknum))
           (unat first_blocknum + unat number_of_blocks)
         \<subseteq> scanned rs first_blocknum number_of_blocks"
    and "scanned rs first_blocknum number_of_blocks
         \<subseteq> range_bound rs (max 1 (unat first_blocknum))
             (unat first_blocknum + unat number_of_blocks)"
proof -
  let ?lo = "max 1 (unat first_blocknum)"
  let ?hi = "unat first_blocknum + unat number_of_blocks"
  have "range_scids rs ?lo ?hi \<subseteq> scanned rs first_blocknum number_of_blocks
      \<and> scanned rs first_blocknum number_of_blocks \<subseteq> range_bound rs ?lo ?hi"
  proof (cases "unat first_blocknum < 2 ^ 24")
    case True
    have "scanned rs first_blocknum number_of_blocks = range_scids rs ?lo ?hi"
      using True assms by (rule scanned_exact)
    then show ?thesis using range_scids_bound [of ?lo rs ?hi] by simp
  next
    case False
    then have e: "range_scids rs ?lo ?hi = {}" by (intro range_scids_high) simp
    show ?thesis
    proof (cases "?hi \<le> 2 ^ 24")
      case True
      then have "unat first_blocknum = unat (16777216 :: u32)" using False by simp
      then have f: "first_blocknum = 16777216" by (simp only: word_unat_eq_iff)
      have "range_start first_blocknum = - 1"
        by (simp add: f range_start_def mk_short_channel_id_def)
      then have "\<And>k. \<not> range_start first_blocknum < k" by simp
      then have "scanned rs first_blocknum number_of_blocks = {}" by (simp add: scanned_def)
      then show ?thesis using e by simp
    next
      case high: False
      then have "range_bound rs ?lo ?hi = range_scids rs 1 (2 ^ 24)"
        by (simp add: range_bound_def)
      then show ?thesis
        using e scanned_upper [of rs first_blocknum number_of_blocks] by simp
    qed
  qed
  then show "range_scids rs ?lo ?hi \<subseteq> scanned rs first_blocknum number_of_blocks"
    and "scanned rs first_blocknum number_of_blocks \<subseteq> range_bound rs ?lo ?hi"
    by simp_all
qed

lemma queue_channel_ranges_bounds:
  assumes "unat first_blocknum + unat number_of_blocks < 2 ^ 32"
    and "\<And>b. unat first_blocknum \<le> unat b \<Longrightarrow>
              unat b < unat first_blocknum + unat number_of_blocks \<Longrightarrow>
              unat b < 2 ^ 24 \<Longrightarrow> block_fits deflate mx rs b"
  shows "\<exists>out sss.
           queue_channel_ranges deflate mx rs first_blocknum number_of_blocks = Inr out
         \<and> replies_encode deflate mx rs out sss
         \<and> range_scids rs (max 1 (unat first_blocknum))
               (unat first_blocknum + unat number_of_blocks) \<subseteq> \<Union> (set ` set sss)
         \<and> \<Union> (set ` set sss) \<subseteq>
             range_bound rs (max 1 (unat first_blocknum))
               (unat first_blocknum + unat number_of_blocks)"
  using assms
proof (induction deflate mx rs first_blocknum number_of_blocks rule: queue_channel_ranges.induct)
  case (1 deflate mx rs first num)
  let ?lo = "max 1 (unat first)"
  let ?hi = "unat first + unat num"
  from channel_range_encoded_scanned [of deflate mx rs first num] obtain ss where
    ce: "channel_range_encoded deflate mx rs first num = encode_scids deflate mx ss 65490"
    and st: "set ss = scanned rs first num"
    by blast
  from encode_scids_Inr [of deflate mx ss 65490] obtain ok enc where
    en: "encode_scids deflate mx ss 65490 = Inr (ok, enc)" by blast
  have cr: "channel_range_encoded deflate mx rs first num = Inr (ok, enc)"
    using ce en by simp
  note sb = scanned_bounds [OF "1.prems"(1), of rs]
  show ?case
  proof (cases ok)
    case True
    have "queue_channel_ranges deflate mx rs first num =
        Inr [Reply_channel_range (chain_hash rs) first num 1 enc]"
      using cr True by (subst queue_channel_ranges.simps) (simp add: reply_channel_range_def)
    moreover have "replies_encode deflate mx rs
        [Reply_channel_range (chain_hash rs) first num 1 enc] [ss]"
      using en True by (simp add: replies_encode_def)
    moreover have "range_scids rs ?lo ?hi \<subseteq> \<Union> (set ` set [ss])"
      using sb(1) st by simp
    moreover have "\<Union> (set ` set [ss]) \<subseteq> range_bound rs ?lo ?hi"
      using sb(2) st by simp
    ultimately show ?thesis by blast
  next
    case False
    show ?thesis
    proof (cases "num \<le> 1")
      case small: True
      have "range_scids rs ?lo ?hi = {}"
      proof (cases "num = 0")
        case True
        then show ?thesis by (intro range_scids_empty) simp
      next
        case nz: False
        then have one: "num = 1"
          using small by (simp add: word_le_nat_alt unat_eq_0 [symmetric] word_unat_eq_iff)
        have "\<not> unat first < 2 ^ 24"
        proof
          assume "unat first < 2 ^ 24"
          then have "block_fits deflate mx rs first"
            using "1.prems"(2) [of first] one by simp
          then show False using cr False one by (simp add: block_fits_def)
        qed
        then show ?thesis by (intro range_scids_high) simp
      qed
      moreover have "queue_channel_ranges deflate mx rs first num = Inr []"
        using cr False small by (subst queue_channel_ranges.simps) simp
      moreover have "replies_encode deflate mx rs [] []" by (simp add: replies_encode_def)
      ultimately show ?thesis by (intro exI [of _ "[]"]) simp
    next
      case big: False
      let ?h = "num div 2"
      have n2: "2 \<le> unat num" using big by (simp add: word_le_nat_alt)
      have uh: "unat ?h = unat num div 2" by (simp add: unat_div)
      then have h1: "1 \<le> unat ?h" using n2 by simp
      have hle: "?h \<le> num" by (simp add: word_le_nat_alt uh)
      have ur: "unat (num - ?h) = unat num - unat ?h" using hle by (rule unat_sub)
      have "unat first + unat ?h < 2 ^ LENGTH(32)" using "1.prems"(1) uh by simp
      then have uf: "unat (first + ?h) = unat first + unat ?h"
        by (simp only: unat_add_lem [symmetric])
      have p1: "unat first + unat ?h < 2 ^ 32" using "1.prems"(1) uh by simp
      have e: "unat (first + ?h) + unat (num - ?h) = unat first + unat num"
        using uf ur uh by simp
      have p2: "unat (first + ?h) + unat (num - ?h) < 2 ^ 32"
        using "1.prems"(1) e by simp
      have fit1: "\<And>b. unat first \<le> unat b \<Longrightarrow> unat b < unat first + unat ?h \<Longrightarrow>
              unat b < 2 ^ 24 \<Longrightarrow> block_fits deflate mx rs b"
        using "1.prems"(2) uh by simp
      from "1.IH"(1) [OF cr _ big p1 fit1] False obtain out1 sss1 where
        q1: "queue_channel_ranges deflate mx rs first ?h = Inr out1"
        and e1: "replies_encode deflate mx rs out1 sss1"
        and l1: "range_scids rs ?lo (unat first + unat ?h) \<subseteq> \<Union> (set ` set sss1)"
        and u1: "\<Union> (set ` set sss1) \<subseteq> range_bound rs ?lo (unat first + unat ?h)"
        by fastforce
      have fit2: "\<And>b. unat (first + ?h) \<le> unat b \<Longrightarrow>
              unat b < unat (first + ?h) + unat (num - ?h) \<Longrightarrow>
              unat b < 2 ^ 24 \<Longrightarrow> block_fits deflate mx rs b"
        using "1.prems"(2) uf ur uh by simp
      have m2: "max 1 (unat (first + ?h)) = unat first + unat ?h" using uf h1 by simp
      from "1.IH"(2) [OF cr _ big q1 p2 fit2] False obtain out2 sss2 where
        q2: "queue_channel_ranges deflate mx rs (first + ?h) (num - ?h) = Inr out2"
        and e2: "replies_encode deflate mx rs out2 sss2"
        and l2: "range_scids rs (unat first + unat ?h) ?hi \<subseteq> \<Union> (set ` set sss2)"
        and u2: "\<Union> (set ` set sss2) \<subseteq> range_bound rs (unat first + unat ?h) ?hi"
        unfolding m2 e by fastforce
      have "queue_channel_ranges deflate mx rs first num = Inr (out1 @ out2)"
        using cr False big q1 q2 by (subst queue_channel_ranges.simps) simp
      moreover have "replies_encode deflate mx rs (out1 @ out2) (sss1 @ sss2)"
        using e1 e2 by (rule replies_encode_append)
      moreover have "range_scids rs ?lo ?hi \<subseteq> \<Union> (set ` set (sss1 @ sss2))"
      proof -
        have "range_scids rs ?lo ?hi =
            range_scids rs ?lo (unat first + unat ?h)
            \<union> range_scids rs (unat first + unat ?h) ?hi"
          using h1 uh by (intro range_scids_split [symmetric]) simp_all
        then show ?thesis using l1 l2 by auto
      qed
      moreover have "\<Union> (set ` set (sss1 @ sss2)) \<subseteq> range_bound rs ?lo ?hi"
      proof -
        have "range_bound rs ?lo (unat first + unat ?h) \<subseteq> range_bound rs ?lo ?hi"
          using uh by (intro range_bound_mono) simp_all
        moreover have "range_bound rs (unat first + unat ?h) ?hi \<subseteq> range_bound rs ?lo ?hi"
          using h1 by (intro range_bound_mono) simp_all
        ultimately show ?thesis using u1 u2 by auto
      qed
      ultimately show ?thesis by blast
    qed
  qed
qed

definition chan_z :: "nat chan" where
  "chan_z = chan_x\<lparr>chan_scid := 5\<rparr>"

definition rs_five :: "nat routing_state" where
  "rs_five = rs0\<lparr>chanmap := [(5, chan_z)], nodes := [(3, node_self), (7, node_peer)]\<rparr>"

lemma blocknum_5: "short_channel_id_blocknum 5 = 0"
  by (simp add: short_channel_id_blocknum_def)

lemma blocknum_x: "short_channel_id_blocknum 1099511627776 = 1"
  by (simp add: short_channel_id_blocknum_def)

lemma blocknum_y: "short_channel_id_blocknum 1099511627777 = 1"
  by (simp add: short_channel_id_blocknum_def)

lemma towire_x: "towire_short_channel_id 1099511627776 = [0, 0, 1, 0, 0, 0, 0, 0]"
  by (simp add: towire_short_channel_id_def)

lemma towire_y: "towire_short_channel_id 1099511627777 = [0, 0, 1, 0, 0, 0, 0, 1]"
  by (simp add: towire_short_channel_id_def)

lemma range_start_0: "range_start 0 = 1099511627775"
  by (simp add: range_start_def mk_short_channel_id_def)

lemma range_start_1: "range_start 1 = 1099511627775"
  by (simp add: range_start_def mk_short_channel_id_def)

lemma scan_five:
  "channel_range_scan (chanmap rs_five) 1099511627775 1 [SHORTIDS_ZLIB] = [SHORTIDS_ZLIB]"
  by (subst channel_range_scan.simps) (simp add: uintmap_after_def rs_five_def)

lemma scan_two:
  "channel_range_scan (chanmap rs_two) 1099511627775 2 [SHORTIDS_ZLIB] =
     [SHORTIDS_ZLIB] @ [0, 0, 1, 0, 0, 0, 0, 0] @ [0, 0, 1, 0, 0, 0, 0, 1]"
proof -
  have 1: "uintmap_after (chanmap rs_two) 1099511627775 = Some 1099511627776"
    by (simp add: uintmap_after_def rs_two_def)
  have 2: "uintmap_after (chanmap rs_two) 1099511627776 = Some 1099511627777"
    by (simp add: uintmap_after_def rs_two_def)
  have 3: "uintmap_after (chanmap rs_two) 1099511627777 = None"
    by (simp add: uintmap_after_def rs_two_def)
  show ?thesis
    apply (subst channel_range_scan.simps, simp add: 1 blocknum_x word_le_nat_alt)
    apply (subst channel_range_scan.simps, simp add: 2 blocknum_y word_le_nat_alt)
    apply (subst channel_range_scan.simps, simp add: 3)
    apply (simp add: encode_add_short_channel_id_def towire_x towire_y)
    done
qed

lemma encoded_five:
  "channel_range_encoded zlib_level9 UINT32_MAX rs_five 0 1 = Inr (True, [SHORTIDS_UNCOMPRESSED])"
  using range_start_0
  by (simp add: channel_range_encoded_def Let_def range_start_def encode_short_channel_ids_start_def
      scan_five encode_short_channel_ids_end_def zencode_scids_eq zlib_level9_def
      check_length_def UINT32_MAX_def)

lemma encoded_two:
  "channel_range_encoded zlib_level9 UINT32_MAX rs_two 1 1 =
     Inr (True, SHORTIDS_ZLIB # [120, 218, 99, 96, 96, 100, 128, 0, 48, 205, 8, 0, 0, 37, 0, 4])"
  using range_start_1 scan_two
  by (simp add: channel_range_encoded_def Let_def range_start_def encode_short_channel_ids_start_def
      encode_short_channel_ids_end_def zencode_scids_eq zlib_level9_def
      check_length_def UINT32_MAX_def)


lemma range_scids_two: "range_scids rs_two 1 2 = {1099511627776, 1099511627777}"
  by (auto simp: range_scids_def rs_two_def blocknum_x blocknum_y)

text \<open>The ids of a range fit into one reply.\<close>

definition range_fits :: "(blob \<Rightarrow> blob) \<Rightarrow> u32 \<Rightarrow> 'k routing_state \<Rightarrow> u32 \<Rightarrow> u32 \<Rightarrow> bool" where
  "range_fits deflate mx rs first_blocknum number_of_blocks =
     (\<exists>enc. channel_range_encoded deflate mx rs first_blocknum number_of_blocks = Inr (True, enc))"

lemma u32_accepted:
  fixes a n :: u32
  assumes "unat a + unat n < 2 ^ 32"
  shows "\<not> a + n < a"
proof -
  have "unat a + unat n < 2 ^ LENGTH(32)" using assms by simp
  then have "unat (a + n) = unat a + unat n" by (simp only: unat_add_lem [symmetric])
  then show ?thesis by (simp add: word_less_nat_alt)
qed

text \<open>A channel map with one channel in block 1 and one in block 2.\<close>

definition chan_w :: "nat chan" where
  "chan_w = chan_y\<lparr>chan_scid := 2199023255552\<rparr>"

definition rs_split :: "nat routing_state" where
  "rs_split = rs0\<lparr>chanmap := [(1099511627776, chan_x), (2199023255552, chan_w)],
                   nodes := [(3, node_self), (7, node_peer), (9, node_far)]\<rparr>"

lemma blocknum_w: "short_channel_id_blocknum 2199023255552 = 2"
  by (simp add: short_channel_id_blocknum_def)

lemma towire_w: "towire_short_channel_id 2199023255552 = [0, 0, 2, 0, 0, 0, 0, 0]"
  by (simp add: towire_short_channel_id_def)

lemma range_start_2: "range_start 2 = 2199023255551"
  by (simp add: range_start_def mk_short_channel_id_def)

lemma after_split:
  "uintmap_after (chanmap rs_split) 1099511627775 = Some 1099511627776"
  "uintmap_after (chanmap rs_split) 1099511627776 = Some 2199023255552"
  "uintmap_after (chanmap rs_split) 2199023255551 = Some 2199023255552"
  "uintmap_after (chanmap rs_split) 2199023255552 = None"
  by (simp_all add: uintmap_after_def rs_split_def)

lemma scan_split_1_2:
  "channel_range_scan (chanmap rs_split) 1099511627775 3 [SHORTIDS_ZLIB] =
     [SHORTIDS_ZLIB] @ [0, 0, 1, 0, 0, 0, 0, 0] @ [0, 0, 2, 0, 0, 0, 0, 0]"
  apply (subst channel_range_scan.simps, simp add: after_split blocknum_x word_le_nat_alt)
  apply (subst channel_range_scan.simps, simp add: after_split blocknum_w word_le_nat_alt)
  apply (subst channel_range_scan.simps, simp add: after_split)
  apply (simp add: encode_add_short_channel_id_def towire_x towire_w)
  done

lemma scan_split_1_1:
  "channel_range_scan (chanmap rs_split) 1099511627775 2 [SHORTIDS_ZLIB] =
     [SHORTIDS_ZLIB] @ [0, 0, 1, 0, 0, 0, 0, 0]"
  apply (subst channel_range_scan.simps, simp add: after_split blocknum_x word_le_nat_alt)
  apply (subst channel_range_scan.simps, simp add: after_split blocknum_w word_le_nat_alt)
  apply (simp add: encode_add_short_channel_id_def towire_x)
  done

lemma scan_split_2_1:
  "channel_range_scan (chanmap rs_split) 2199023255551 3 [SHORTIDS_ZLIB] =
     [SHORTIDS_ZLIB] @ [0, 0, 2, 0, 0, 0, 0, 0]"
  apply (subst channel_range_scan.simps, simp add: after_split blocknum_w word_le_nat_alt)
  apply (subst channel_range_scan.simps, simp add: after_split)
  apply (simp add: encode_add_short_channel_id_def towire_w)
  done

lemma encoded_split_1_2:
  "channel_range_encoded zlib_level9 9 rs_split 1 2 =
     Inr (False, SHORTIDS_ZLIB # [120, 218, 99, 96, 96, 100, 128, 0, 38, 48, 9, 0, 0, 42, 0, 4])"
  using range_start_1 scan_split_1_2
  by (simp add: channel_range_encoded_def Let_def range_start_def encode_short_channel_ids_start_def
      encode_short_channel_ids_end_def zencode_scids_eq zlib_level9_def check_length_def)

lemma encoded_split_1_1:
  "channel_range_encoded zlib_level9 9 rs_split 1 1 =
     Inr (True, SHORTIDS_UNCOMPRESSED # [0, 0, 1, 0, 0, 0, 0, 0])"
  using range_start_1 scan_split_1_1
  by (simp add: channel_range_encoded_def Let_def range_start_def encode_short_channel_ids_start_def
      encode_short_channel_ids_end_def zencode_scids_eq zlib_level9_def check_length_def)

lemma encoded_split_2_1:
  "channel_range_encoded zlib_level9 9 rs_split 2 1 =
     Inr (True, SHORTIDS_UNCOMPRESSED # [0, 0, 2, 0, 0, 0, 0, 0])"
  using range_start_2 scan_split_2_1
  by (simp add: channel_range_encoded_def Let_def range_start_def encode_short_channel_ids_start_def
      encode_short_channel_ids_end_def zencode_scids_eq zlib_level9_def check_length_def)

lemma queue_split_1_2:
  "queue_channel_ranges zlib_level9 9 rs_split 1 2 =
     Inr [Reply_channel_range [1] 1 1 1 (SHORTIDS_UNCOMPRESSED # [0, 0, 1, 0, 0, 0, 0, 0]),
          Reply_channel_range [1] 2 1 1 (SHORTIDS_UNCOMPRESSED # [0, 0, 2, 0, 0, 0, 0, 0])]"
proof -
  have c: "chain_hash rs_split = [1]" by (simp add: rs_split_def rs0_def)
  have h: "(2 :: u32) div 2 = 1" "(1 :: u32) + 1 = 2" "(2 :: u32) - 1 = 1" "\<not> (2 :: u32) \<le> 1"
    by (simp_all add: word_le_nat_alt)
  have 1: "queue_channel_ranges zlib_level9 9 rs_split 1 1 =
      Inr [Reply_channel_range [1] 1 1 1 (SHORTIDS_UNCOMPRESSED # [0, 0, 1, 0, 0, 0, 0, 0])]"
    by (subst queue_channel_ranges.simps) (simp add: encoded_split_1_1 reply_channel_range_def c)
  have 2: "queue_channel_ranges zlib_level9 9 rs_split 2 1 =
      Inr [Reply_channel_range [1] 2 1 1 (SHORTIDS_UNCOMPRESSED # [0, 0, 2, 0, 0, 0, 0, 0])]"
    by (subst queue_channel_ranges.simps) (simp add: encoded_split_2_1 reply_channel_range_def c)
  show ?thesis
    by (subst queue_channel_ranges.simps) (simp add: encoded_split_1_2 h 1 2)
qed

lemma range_scids_split_all: "range_scids rs_split 1 3 = {1099511627776, 2199023255552}"
  by (auto simp: range_scids_def rs_split_def blocknum_x blocknum_w)

lemma block_fits_split:
  assumes "unat b < 2 ^ 24"
  shows "block_fits zlib_level9 9 rs_split b"
proof -
  consider "b = 1" | "b = 2" | "b \<noteq> 1" "b \<noteq> 2" by blast
  then show ?thesis
  proof cases
    case 1
    then show ?thesis by (simp add: block_fits_def encoded_split_1_1)
  next
    case 2
    then show ?thesis by (simp add: block_fits_def encoded_split_2_1)
  next
    case 3
    from channel_range_encoded_scanned [of zlib_level9 9 rs_split b 1] obtain ss where
      ce: "channel_range_encoded zlib_level9 9 rs_split b 1 = encode_scids zlib_level9 9 ss 65490"
      and st: "set ss = scanned rs_split b 1"
      by blast
    have "unat b + unat (1 :: u32) < 2 ^ 32" using assms by simp
    then have "scanned rs_split b 1 = range_scids rs_split (max 1 (unat b)) (unat b + unat (1 :: u32))"
      using assms by (intro scanned_exact)
    moreover have "unat b \<noteq> 1" "unat b \<noteq> 2"
      using 3 by (simp_all add: word_unat_eq_iff)
    ultimately have "scanned rs_split b 1 = {}"
      by (auto simp: range_scids_def rs_split_def blocknum_x blocknum_w)
    then have "ss = []" using st by simp
    then have "channel_range_encoded zlib_level9 9 rs_split b 1 =
        Inr (True, [SHORTIDS_UNCOMPRESSED])"
      using ce by (simp add: encode_scids_eq zlib_level9_def check_length_def)
    then show ?thesis by (simp add: block_fits_def)
  qed
qed

lemma scan_two_limit:
  assumes "\<not> limit \<le> 1"
  shows "channel_range_scan (chanmap rs_two) 1099511627775 limit [SHORTIDS_ZLIB] =
     [SHORTIDS_ZLIB] @ [0, 0, 1, 0, 0, 0, 0, 0] @ [0, 0, 1, 0, 0, 0, 0, 1]"
proof -
  have 1: "uintmap_after (chanmap rs_two) 1099511627775 = Some 1099511627776"
    by (simp add: uintmap_after_def rs_two_def)
  have 2: "uintmap_after (chanmap rs_two) 1099511627776 = Some 1099511627777"
    by (simp add: uintmap_after_def rs_two_def)
  have 3: "uintmap_after (chanmap rs_two) 1099511627777 = None"
    by (simp add: uintmap_after_def rs_two_def)
  show ?thesis
    apply (subst channel_range_scan.simps, simp add: 1 blocknum_x assms)
    apply (subst channel_range_scan.simps, simp add: 2 blocknum_y assms)
    apply (subst channel_range_scan.simps, simp add: 3)
    apply (simp add: encode_add_short_channel_id_def towire_x towire_y)
    done
qed

lemma range_start_wrapped: "range_start 16777217 = 1099511627775"
  by (simp add: range_start_def mk_short_channel_id_def)

lemma encoded_two_all:
  "channel_range_encoded zlib_level9 UINT32_MAX rs_two 0 4294967295 =
     Inr (True, SHORTIDS_ZLIB # [120, 218, 99, 96, 96, 100, 128, 0, 48, 205, 8, 0, 0, 37, 0, 4])"
proof -
  have "\<not> (0 + 4294967295 :: u32) \<le> 1" by (simp add: word_le_nat_alt)
  from scan_two_limit [OF this] range_start_0 show ?thesis
    by (simp add: channel_range_encoded_def Let_def range_start_def encode_short_channel_ids_start_def
      encode_short_channel_ids_end_def zencode_scids_eq zlib_level9_def
      check_length_def UINT32_MAX_def)
qed

lemma encoded_two_wrapped:
  "channel_range_encoded zlib_level9 UINT32_MAX rs_two 16777217 1 =
     Inr (True, SHORTIDS_ZLIB # [120, 218, 99, 96, 96, 100, 128, 0, 48, 205, 8, 0, 0, 37, 0, 4])"
proof -
  have "\<not> (16777217 + 1 :: u32) \<le> 1" by (simp add: word_le_nat_alt)
  from scan_two_limit [OF this] range_start_wrapped show ?thesis
    by (simp add: channel_range_encoded_def Let_def range_start_def encode_short_channel_ids_start_def
      encode_short_channel_ids_end_def zencode_scids_eq zlib_level9_def
      check_length_def UINT32_MAX_def)
qed

section \<open>The claims\<close>

subsection \<open>C4: the window of an accepted timestamp filter\<close>

text \<open>C4. An accepted \<^verbatim>\<open>gossip_timestamp_filter\<close> (it parses and names our chain) with
  \<open>timestamp_range \<ge> 1\<close> leaves the peer with \<open>gossip_timestamp_min = first_timestamp\<close>
  and \<open>gossip_timestamp_min \<le> gossip_timestamp_max\<close>. When
  \<open>first_timestamp + timestamp_range - 1\<close> exceeds \<open>2^32 - 1\<close> the upper bound is
  \<open>UINT32_MAX\<close>, not the wrapped sum; when it does not, the upper bound is exactly that
  sum.\<close>

theorem gossip_timestamp_filter_window:
  fixes rs :: "'k routing_state" and peer :: "'k peer"
    and first_timestamp timestamp_range :: u32
  assumes "1 \<le> timestamp_range"
  defines "peer' \<equiv> fst (handle_gossip_timestamp_filter rs peer
                          (Some (chain_hash rs, first_timestamp, timestamp_range)))"
  shows "gossip_timestamp_min peer' = first_timestamp
       \<and> gossip_timestamp_min peer' \<le> gossip_timestamp_max peer'
       \<and> (4294967295 < uint first_timestamp + uint timestamp_range - 1 \<longrightarrow>
            gossip_timestamp_max peer' = UINT32_MAX)
       \<and> (uint first_timestamp + uint timestamp_range - 1 \<le> 4294967295 \<longrightarrow>
            uint (gossip_timestamp_max peer') = uint first_timestamp + uint timestamp_range - 1)"
proof (intro conjI)
  have r: "timestamp_range \<noteq> 0" using assms(1) by (simp add: u32_le_one_iff)
  show "gossip_timestamp_min peer' = first_timestamp"
    by (simp add: peer'_def handle_gossip_timestamp_filter_def Let_def wake_gossip_out_def)
  show "gossip_timestamp_min peer' \<le> gossip_timestamp_max peer'"
    by (simp add: peer'_def handle_gossip_timestamp_filter_def Let_def wake_gossip_out_def
        u32_le_max not_less)
  show "4294967295 < uint first_timestamp + uint timestamp_range - 1 \<longrightarrow>
           gossip_timestamp_max peer' = UINT32_MAX"
    using filter_max_overflow [OF r, of first_timestamp]
    by (simp add: peer'_def handle_gossip_timestamp_filter_def Let_def wake_gossip_out_def)
  show "uint first_timestamp + uint timestamp_range - 1 \<le> 4294967295 \<longrightarrow>
           uint (gossip_timestamp_max peer') = uint first_timestamp + uint timestamp_range - 1"
    using filter_max_exact [OF r, of first_timestamp]
    by (simp add: peer'_def handle_gossip_timestamp_filter_def Let_def wake_gossip_out_def)
qed

theorem gossip_timestamp_filter_window_witness:
  "(1::u32) \<le> 32
   \<and> gossip_timestamp_min (fst (handle_gossip_timestamp_filter rs0 peer0 (Some ([1], 0xFFFFFFF0, 32)))) = 0xFFFFFFF0
   \<and> gossip_timestamp_max (fst (handle_gossip_timestamp_filter rs0 peer0 (Some ([1], 0xFFFFFFF0, 32)))) = UINT32_MAX
   \<and> uint (gossip_timestamp_max (fst (handle_gossip_timestamp_filter rs0 peer0 (Some ([1], 100, 32))))) = 131"
proof -
  have h: "(1::u32) \<le> 32" by simp
  have c: "chain_hash rs0 = [1]" by (simp add: rs0_def)
  show ?thesis
    using h gossip_timestamp_filter_window [OF h, of rs0 peer0 "0xFFFFFFF0"]
      gossip_timestamp_filter_window [OF h, of rs0 peer0 100]
    by (simp add: c)
qed

subsection \<open>C10: a timestamp filter with range 0\<close>

text \<open>C10. An accepted \<^verbatim>\<open>gossip_timestamp_filter\<close> with \<open>timestamp_range = 0\<close> leaves the
  window \<open>[first_timestamp, UINT32_MAX]\<close>, not an empty one: the sum
  \<open>first_timestamp + 0 - 1\<close> is below \<open>first_timestamp\<close> when \<open>first_timestamp\<close> is not 0
  and is then replaced; for \<open>first_timestamp = 0\<close> the sum wraps to \<open>UINT32_MAX\<close> at
  once.\<close>

theorem gossip_timestamp_filter_zero_range:
  fixes rs :: "'k routing_state" and peer :: "'k peer" and first_timestamp :: u32
  defines "peer' \<equiv> fst (handle_gossip_timestamp_filter rs peer
                          (Some (chain_hash rs, first_timestamp, 0)))"
  shows "gossip_timestamp_min peer' = first_timestamp
       \<and> gossip_timestamp_max peer' = UINT32_MAX
       \<and> (first_timestamp \<noteq> 0 \<longrightarrow> first_timestamp + 0 - 1 < first_timestamp)
       \<and> (first_timestamp = 0 \<longrightarrow> first_timestamp + 0 - 1 = UINT32_MAX)"
proof (cases "first_timestamp = 0")
  case True
  then show ?thesis
    by (simp add: peer'_def handle_gossip_timestamp_filter_def Let_def wake_gossip_out_def
        UINT32_MAX_def)
next
  case False
  then show ?thesis
    using u32_pred_less [of first_timestamp]
    by (simp add: peer'_def handle_gossip_timestamp_filter_def Let_def wake_gossip_out_def)
qed

theorem gossip_timestamp_filter_zero_range_witness:
  "(5::u32) \<noteq> 0 \<and> (5::u32) + 0 - 1 < 5
   \<and> gossip_timestamp_min (fst (handle_gossip_timestamp_filter rs0 peer0 (Some ([1], 5, 0)))) = 5
   \<and> gossip_timestamp_max (fst (handle_gossip_timestamp_filter rs0 peer0 (Some ([1], 5, 0)))) = UINT32_MAX
   \<and> gossip_timestamp_max (fst (handle_gossip_timestamp_filter rs0 peer0 (Some ([1], 0, 0)))) = UINT32_MAX"
proof -
  have c: "chain_hash rs0 = [1]" by (simp add: rs0_def)
  show ?thesis
    using gossip_timestamp_filter_zero_range [of rs0 peer0 5]
      gossip_timestamp_filter_zero_range [of rs0 peer0 0]
    by (simp add: c)
qed

subsection \<open>C3: the broadcast index\<close>

text \<open>C3, as stated, fails: an accepted \<^verbatim>\<open>gossip_timestamp_filter\<close> sets
  \<^verbatim>\<open>broadcast_index\<close> to 0, here from 5.\<close>

theorem broadcast_index_filter_counterexample:
  "broadcast_index peer0 = 5
   \<and> peer_event cfg0 rs0 peer0 (Recv_gossip_timestamp_filter (Some ([1], 0, 10))) =
       Inr (peer0\<lparr>gossip_timestamp_min := 0, gossip_timestamp_max := 9, broadcast_index := 0\<rparr>,
            [], [])"
  by (simp add: peer_event_def handle_gossip_timestamp_filter_def Let_def wake_gossip_out_def
      peer0_def rs0_def UINT32_MAX_def)

text \<open>C3, amended. Over any sequence of the events modelled (inbound
  \<^verbatim>\<open>query_short_channel_ids\<close>, \<^verbatim>\<open>reply_short_channel_ids_end\<close>, \<^verbatim>\<open>gossip_timestamp_filter\<close>,
  \<^verbatim>\<open>query_channel_range\<close>, and wake-ups of the write loop) that contains no accepted
  \<^verbatim>\<open>gossip_timestamp_filter\<close>, the peer's \<^verbatim>\<open>broadcast_index\<close> does not decrease; an
  accepted filter is the one event that lowers it (to 0).\<close>

theorem broadcast_index_monotone:
  assumes "peer_events cfg rs peer evs = Inr peer'"
    and "\<forall>ev \<in> set evs. \<not> accepted_filter rs ev"
  shows "broadcast_index peer \<le> broadcast_index peer'"
  using assms
proof (induction evs arbitrary: peer)
  case Nil
  then show ?case by simp
next
  case (Cons ev evs)
  from Cons.prems(1) obtain p1 out mout where
    s: "peer_event cfg rs peer ev = Inr (p1, out, mout)" and r: "peer_events cfg rs p1 evs = Inr peer'"
    by (auto split: sum.splits)
  have "broadcast_index peer \<le> broadcast_index p1"
    using peer_event_index [OF s] Cons.prems(2) by simp
  moreover have "broadcast_index p1 \<le> broadcast_index peer'"
    using Cons.IH [OF r] Cons.prems(2) by simp
  ultimately show ?case by simp
qed

theorem broadcast_index_monotone_witness:
  "peer_events cfg0 rs_log peer_legacy [Recv_gossip_timestamp_filter (Some ([2], 0, 10)), Wake] =
     Inr (peer_legacy\<lparr>broadcast_index := 6\<rparr>)
   \<and> \<not> accepted_filter rs_log (Recv_gossip_timestamp_filter (Some ([2], 0, 10)))
   \<and> \<not> accepted_filter rs_log Wake
   \<and> broadcast_index peer_legacy = 5
   \<and> broadcast_index peer_legacy \<le> broadcast_index (peer_legacy\<lparr>broadcast_index := 6\<rparr>)"
proof -
  have a: "peer_events cfg0 rs_log peer_legacy
     [Recv_gossip_timestamp_filter (Some ([2], 0, 10)), Wake] =
       Inr (peer_legacy\<lparr>broadcast_index := 6\<rparr>)"
    by (simp add: peer_event_def handle_gossip_timestamp_filter_def dump_gossip_def
        create_next_scid_reply_def scid_reply_chans_done scid_reply_nodes_done tal_list_def
        maybe_queue_gossip_def Let_def cfg0_def rs_log_def rs0_def peer_legacy_def peer0_def
        UINT32_MAX_def)
  have b: "\<forall>ev \<in> set [Recv_gossip_timestamp_filter (Some ([2::u8], 0, 10)), Wake].
         \<not> accepted_filter rs_log ev"
    by (simp add: rs_log_def rs0_def)
  have c: "broadcast_index peer_legacy = 5" by (simp add: peer_legacy_def peer0_def)
  show ?thesis using a b c broadcast_index_monotone [OF a b] by simp
qed

subsection \<open>C7: a query while another is in flight\<close>

text \<open>C7, as stated, fails: a \<^verbatim>\<open>query_short_channel_ids\<close> that names another chain is
  dropped before the check for a query in flight, and no error is sent.\<close>

theorem concurrent_query_counterexample:
  "scid_queries peer_busy \<noteq> None
   \<and> handle_query_short_channel_ids (\<lambda>encoded. Some []) rs0 peer_busy (Some ([2], [])) =
       (peer_busy, [])"
  by (simp add: handle_query_short_channel_ids_def peer_busy_def rs0_def)

text \<open>C7, amended. While a query of short channel ids is in flight, every further
  \<^verbatim>\<open>query_short_channel_ids\<close> leaves the peer's query state (indeed the whole peer
  record) as it is. One that names our chain is answered with the error
  "Bad concurrent query_short_channel_ids", one that does not parse with the error
  "Bad query_short_channel_ids"; one that names another chain is dropped without an
  error.\<close>

theorem concurrent_query_rejected:
  assumes "scid_queries peer \<noteq> None \<or> scid_query_nodes peer \<noteq> None"
  shows "fst (handle_query_short_channel_ids d rs peer m) = peer
       \<and> (m = None \<longrightarrow>
            snd (handle_query_short_channel_ids d rs peer m) = [Error_msg ''Bad query_short_channel_ids''])
       \<and> (\<forall>chain encoded. m = Some (chain, encoded) \<longrightarrow>
            snd (handle_query_short_channel_ids d rs peer m) =
              (if chain = chain_hash rs then [Error_msg ''Bad concurrent query_short_channel_ids'']
               else []))"
  using assms
  by (auto simp: handle_query_short_channel_ids_def peer_error_def split: option.splits)

theorem concurrent_query_rejected_witness:
  "scid_queries peer_busy \<noteq> None
   \<and> handle_query_short_channel_ids (\<lambda>encoded. Some []) rs0 peer_busy (Some ([1], [])) =
       (peer_busy, [Error_msg ''Bad concurrent query_short_channel_ids''])"
proof -
  have h: "scid_queries peer_busy \<noteq> None \<or> scid_query_nodes peer_busy \<noteq> None"
    by (simp add: peer_busy_def)
  have q: "scid_queries peer_busy \<noteq> None" by (simp add: peer_busy_def)
  have c: "chain_hash rs0 = [1]" by (simp add: rs0_def)
  show ?thesis
    using q concurrent_query_rejected [OF h, of "\<lambda>encoded. Some []" rs0 "Some ([1], [])"]
    by (simp add: c prod_eq_iff)
qed

subsection \<open>C6: the timestamp of a regenerated channel update\<close>

text \<open>C6 holds of the specification, not of the code: \<^verbatim>\<open>update_local_channel\<close> bumps
  the timestamp only when the clock equals the previous \<^verbatim>\<open>last_timestamp\<close>. With the
  half-channel last stamped 1001 (as it is after two updates within the second 1000) and
  the clock still at 1000, the new update is stamped 1000. \<^verbatim>\<open>send_node_announcement\<close>
  does move the timestamp forward in the same situation.\<close>

theorem update_local_channel_stale_timestamp:
  "is_halfchan_defined (half chan_x 0)
   \<and> last_timestamp (half chan_x 0) = 1001
   \<and> cu_timestamp (update_local_channel 1000 rs0 chan_x 0 False 6 0 1 10 1000000) = 1000
   \<and> \<not> last_timestamp (half chan_x 0)
         < cu_timestamp (update_local_channel 1000 rs0 chan_x 0 False 6 0 1 10 1000000)
   \<and> send_node_announcement_timestamp 1000 1001 = 1002"
  by (simp add: update_local_channel_def Let_def chan_x_def half_def is_halfchan_defined_def
      send_node_announcement_timestamp_def)

subsection \<open>C9: a ping asked for by the master\<close>

text \<open>C9, as stated, fails: a request whose padding makes the ping longer than 65535
  bytes ends the daemon (\<^verbatim>\<open>status_failed\<close>, "Oversize ping"); the master gets no reply
  and the counter is not touched.\<close>

theorem ping_req_oversize_counterexample:
  "find_peer daemon0 7 = Some peer0
   \<and> ping_req make_ping_wire daemon0 (Some (7, 65532, 65535)) = Inl (Status_failed ''Oversize ping'')
   \<and> ping_req make_ping_wire daemon0 (Some (7, 0, 65535)) = Inl (Status_failed ''Oversize ping'')"
  by (simp add: ping_req_def find_peer_def daemon0_def peer0_def length_make_ping_wire)

text \<open>C9, amended. For a request to a connected peer whose ping fits into 65535 bytes:
  if \<open>num_pong_bytes \<ge> 65532\<close> the master is answered at once
  (\<^verbatim>\<open>gossip_ping_reply(id, true, 0)\<close>) and nothing in the daemon changes, so
  \<^verbatim>\<open>num_pings_outstanding\<close> is not incremented; if \<open>num_pong_bytes < 65532\<close> nothing is
  sent to the master and the peer's \<^verbatim>\<open>num_pings_outstanding\<close> grows by one. The ping is
  queued to the peer in both cases.\<close>

theorem ping_req_reply:
  assumes "find_peer daemon k = Some peer"
    and "length (make_ping num_pong_bytes len) \<le> 65535"
  shows "(num_pong_bytes \<ge> 65532 \<longrightarrow>
            ping_req make_ping daemon (Some (k, num_pong_bytes, len)) =
              Inr (daemon, [Gossip_ping_reply k True 0], [Raw (make_ping num_pong_bytes len)]))
       \<and> (num_pong_bytes < 65532 \<longrightarrow>
            (\<exists>daemon'. ping_req make_ping daemon (Some (k, num_pong_bytes, len)) =
                          Inr (daemon', [], [Raw (make_ping num_pong_bytes len)])
                      \<and> find_peer daemon' k =
                          Some (peer\<lparr>num_pings_outstanding := num_pings_outstanding peer + 1\<rparr>)))"
proof (intro conjI impI)
  assume "num_pong_bytes \<ge> 65532"
  then show "ping_req make_ping daemon (Some (k, num_pong_bytes, len)) =
      Inr (daemon, [Gossip_ping_reply k True 0], [Raw (make_ping num_pong_bytes len)])"
    using assms by (simp add: ping_req_def Let_def)
next
  assume lt: "num_pong_bytes < 65532"
  let ?f = "\<lambda>p. p\<lparr>num_pings_outstanding := num_pings_outstanding p + 1\<rparr>"
  let ?d = "daemon\<lparr>peers := update_first (\<lambda>p. peer_id p = k) ?f (peers daemon)\<rparr>"
  have f: "find (\<lambda>p. peer_id p = k) (peers daemon) = Some peer"
    using assms(1) by (simp add: find_peer_def)
  then have pk: "peer_id peer = k" by (auto simp: find_Some_iff)
  have "find_peer ?d k = Some (?f peer)"
    using find_update_first [OF f, of ?f] pk by (simp add: find_peer_def)
  moreover have "ping_req make_ping daemon (Some (k, num_pong_bytes, len)) =
      Inr (?d, [], [Raw (make_ping num_pong_bytes len)])"
    using assms lt by (simp add: ping_req_def Let_def not_le)
  ultimately show "\<exists>daemon'. ping_req make_ping daemon (Some (k, num_pong_bytes, len)) =
                          Inr (daemon', [], [Raw (make_ping num_pong_bytes len)])
                      \<and> find_peer daemon' k =
                          Some (peer\<lparr>num_pings_outstanding := num_pings_outstanding peer + 1\<rparr>)"
    by blast
qed

theorem ping_req_reply_witness:
  "find_peer daemon0 7 = Some peer0
   \<and> length (make_ping_wire 65532 10) \<le> 65535
   \<and> length (make_ping_wire 100 10) \<le> 65535
   \<and> ping_req make_ping_wire daemon0 (Some (7, 65532, 10)) =
        Inr (daemon0, [Gossip_ping_reply 7 True 0], [Raw (make_ping_wire 65532 10)])
   \<and> (\<exists>daemon'. ping_req make_ping_wire daemon0 (Some (7, 100, 10)) =
                    Inr (daemon', [], [Raw (make_ping_wire 100 10)])
                \<and> find_peer daemon' 7 = Some (peer0\<lparr>num_pings_outstanding := 1\<rparr>))"
proof -
  have f: "find_peer daemon0 7 = Some peer0"
    by (simp add: find_peer_def daemon0_def peer0_def)
  have l1: "length (make_ping_wire 65532 10) \<le> 65535"
    and l2: "length (make_ping_wire 100 10) \<le> 65535"
    by (simp_all add: length_make_ping_wire)
  have z: "num_pings_outstanding peer0 = 0" by (simp add: peer0_def)
  show ?thesis
    using f l1 l2
      ping_req_reply [of daemon0 7 peer0 make_ping_wire 65532 10, OF f l1]
      ping_req_reply [of daemon0 7 peer0 make_ping_wire 100 10, OF f l2]
    by (simp add: z)
qed

subsection \<open>C8: the channels shared with a destroyed peer\<close>

text \<open>C8. After \<^verbatim>\<open>destroy_peer\<close>, every channel of the graph whose two ends are the
  peer's node id and our own has \<^verbatim>\<open>local_disabled\<close> set, given the graph as the routing
  core keeps it: one channel per short channel id, each such channel listed among the
  channels of the peer's node.\<close>

theorem destroy_peer_disables_channels:
  assumes "shared_channels_linked (rstate daemon) (peer_id peer) (daemon_id daemon)"
    and "(s, c) \<in> set (chanmap (rstate (destroy_peer daemon peer)))"
    and "(nodes0 c = peer_id peer \<and> nodes1 c = daemon_id daemon)
       \<or> (nodes0 c = daemon_id daemon \<and> nodes1 c = peer_id peer)"
  shows "local_disabled c"
proof -
  let ?rs = "rstate daemon" and ?a = "peer_id peer" and ?b = "daemon_id daemon"
  have dist: "distinct (map fst (chanmap ?rs))"
    using assms(1) by (simp add: shared_channels_linked_def)
  show ?thesis
  proof (cases "get_node ?rs ?a")
    case None
    then have "rstate (destroy_peer daemon peer) = ?rs"
      by (simp add: destroy_peer_def Let_def)
    then have "(s, c) \<in> set (chanmap ?rs)" using assms(2) by simp
    then show ?thesis using assms(1,3) None
      by (fastforce simp: shared_channels_linked_def)
  next
    case (Some n)
    let ?D = "\<lambda>k. k \<in> set (chans n) \<and> disable_hit ?b n ?rs k"
    have "rstate (destroy_peer daemon peer) = ?rs\<lparr>chanmap := disable_where ?D (chanmap ?rs)\<rparr>"
      using Some by (simp add: destroy_peer_def Let_def peer_disable_channels_def peer_disable_loop_eq)
    then have "(s, c) \<in> set (disable_where ?D (chanmap ?rs))" using assms(2) by simp
    then obtain c0 where c0: "(s, c0) \<in> set (chanmap ?rs)"
      and c: "c = (if ?D s then c0\<lparr>local_disabled := True\<rparr> else c0)"
      using disable_where_member by blast
    have ends: "(nodes0 c0 = ?a \<and> nodes1 c0 = ?b) \<or> (nodes0 c0 = ?b \<and> nodes1 c0 = ?a)"
      using assms(3) c by (auto split: if_splits)
    have n: "node_id n = ?a" "s \<in> set (chans n)"
      using assms(1) c0 ends Some by (fastforce simp: shared_channels_linked_def)+
    have "map_of (chanmap ?rs) s = Some c0" using dist c0 by simp
    then have "disable_hit ?b n ?rs s"
      using ends n(1) by (auto simp: disable_hit_def get_channel_def other_node_def)
    then show ?thesis using c n(2) by simp
  qed
qed

theorem destroy_peer_disables_channels_witness:
  "shared_channels_linked (rstate daemon_chan) (peer_id peer0) (daemon_id daemon_chan)
   \<and> chanmap (rstate (destroy_peer daemon_chan peer0)) =
       [(1099511627776, chan_x\<lparr>local_disabled := True\<rparr>)]
   \<and> nodes0 (chan_x\<lparr>local_disabled := True\<rparr>) = daemon_id daemon_chan
   \<and> nodes1 (chan_x\<lparr>local_disabled := True\<rparr>) = peer_id peer0
   \<and> \<not> local_disabled chan_x
   \<and> local_disabled (chan_x\<lparr>local_disabled := True\<rparr>)"
proof -
  have h: "shared_channels_linked (rstate daemon_chan) (peer_id peer0) (daemon_id daemon_chan)"
    by (simp add: shared_channels_linked_def daemon_chan_def rs_chan_def rs0_def peer0_def
        chan_x_def get_node_def node_peer_def)
  have e: "chanmap (rstate (destroy_peer daemon_chan peer0)) =
       [(1099511627776, chan_x\<lparr>local_disabled := True\<rparr>)]"
    by (simp add: destroy_peer_def Let_def peer_disable_channels_def daemon_chan_def rs_chan_def
        rs0_def peer0_def get_node_def get_channel_def node_peer_def other_node_def chan_x_def
        set_local_disabled_def)
  have m: "(1099511627776, chan_x\<lparr>local_disabled := True\<rparr>)
      \<in> set (chanmap (rstate (destroy_peer daemon_chan peer0)))"
    by (simp add: e)
  have n: "(nodes0 (chan_x\<lparr>local_disabled := True\<rparr>) = peer_id peer0
        \<and> nodes1 (chan_x\<lparr>local_disabled := True\<rparr>) = daemon_id daemon_chan)
       \<or> (nodes0 (chan_x\<lparr>local_disabled := True\<rparr>) = daemon_id daemon_chan
        \<and> nodes1 (chan_x\<lparr>local_disabled := True\<rparr>) = peer_id peer0)"
    by (simp add: chan_x_def daemon_chan_def peer0_def)
  show ?thesis
    using h e destroy_peer_disables_channels [OF h m n]
    by (simp add: chan_x_def daemon_chan_def peer0_def)
qed

subsection \<open>C5: the tag the encoder chooses\<close>

text \<open>C5, as stated, fails: the two short channel ids (1, 0, 0) and (1, 0, 1) are 16 bytes
  raw and 16 bytes compressed; \<^verbatim>\<open>compress2\<close> succeeds in the 16-byte buffer and the tag
  stays \<^verbatim>\<open>SHORTIDS_ZLIB\<close>, though the compressed body is not strictly smaller.\<close>

theorem encode_scids_equal_length_counterexample:
  "encode_scids zlib_level9 UINT32_MAX [mk_short_channel_id 1 0 0, mk_short_channel_id 1 0 1] 65490 =
     Inr (True, SHORTIDS_ZLIB # [120, 218, 99, 96, 96, 100, 128, 0, 48, 205, 8, 0, 0, 37, 0, 4])
   \<and> \<not> length (zlib_level9 (concat (map towire_short_channel_id
              [mk_short_channel_id 1 0 0, mk_short_channel_id 1 0 1])))
        < length (concat (map towire_short_channel_id
              [mk_short_channel_id 1 0 0, mk_short_channel_id 1 0 1]))"
  by (simp add: encode_scids_eq towire_scid_1_0_0 towire_scid_1_0_1 zlib_level9_def
      check_length_def UINT32_MAX_def Let_def)

text \<open>C5, amended. For every list of short channel ids, with \<open>raw\<close> its 8 bytes per id:
  the tag is \<^verbatim>\<open>SHORTIDS_ZLIB\<close> and the body the compressed stream if and only if that
  stream is no longer than \<open>raw\<close> (\<^verbatim>\<open>compress2\<close> succeeds in a buffer of that length);
  otherwise the tag is \<^verbatim>\<open>SHORTIDS_UNCOMPRESSED\<close> and the body is \<open>raw\<close>. Under a byte
  limit of at least \<open>1 + length raw\<close> the encoder reports success.\<close>

theorem encode_scids_tag:
  fixes deflate :: "blob \<Rightarrow> blob" and ss :: "short_channel_id list"
  defines "raw \<equiv> concat (map towire_short_channel_id ss)"
  shows "(length (deflate raw) \<le> length raw \<longrightarrow>
            encode_scids deflate mx ss maxb =
              Inr (check_length mx (SHORTIDS_ZLIB # deflate raw) maxb, SHORTIDS_ZLIB # deflate raw))
       \<and> (length raw < length (deflate raw) \<longrightarrow>
            encode_scids deflate mx ss maxb =
              Inr (check_length mx (SHORTIDS_UNCOMPRESSED # raw) maxb, SHORTIDS_UNCOMPRESSED # raw))
       \<and> (1 + length raw \<le> unat mx \<and> 1 + length raw \<le> maxb \<longrightarrow>
            (\<exists>enc. encode_scids deflate mx ss maxb = Inr (True, enc)))"
  by (auto simp: encode_scids_eq raw_def Let_def check_length_def)

theorem encode_scids_tag_witness:
  "length (zlib_level9 (concat (map towire_short_channel_id
       [mk_short_channel_id 1 0 0, mk_short_channel_id 1 0 1])))
     \<le> length (concat (map towire_short_channel_id
       [mk_short_channel_id 1 0 0, mk_short_channel_id 1 0 1]))
   \<and> length (concat (map towire_short_channel_id [])) < length (zlib_level9 (concat (map towire_short_channel_id [])))
   \<and> 1 + length (concat (map towire_short_channel_id [])) \<le> unat UINT32_MAX
   \<and> encode_scids zlib_level9 UINT32_MAX
        [mk_short_channel_id 1 0 0, mk_short_channel_id 1 0 1] 65490 =
       Inr (True, SHORTIDS_ZLIB # [120, 218, 99, 96, 96, 100, 128, 0, 48, 205, 8, 0, 0, 37, 0, 4])
   \<and> encode_scids zlib_level9 UINT32_MAX [] 65490 = Inr (True, [SHORTIDS_UNCOMPRESSED])"
  using encode_scids_tag [of zlib_level9 "[mk_short_channel_id 1 0 0, mk_short_channel_id 1 0 1]"
      UINT32_MAX 65490]
    encode_scids_tag [of zlib_level9 "[]" UINT32_MAX 65490]
  by (simp add: towire_scid_1_0_0 towire_scid_1_0_1 zlib_level9_def UINT32_MAX_def
      check_length_def)

subsection \<open>C1: the reply to a query of short channel ids\<close>

text \<open>C1. Let a \<^verbatim>\<open>query_short_channel_ids\<close> be accepted: it names our chain, its ids
  decode to \<open>scids\<close>, and no query is in flight (\<^verbatim>\<open>scid_queries\<close> and
  \<^verbatim>\<open>scid_query_nodes\<close> are \<^verbatim>\<open>NULL\<close> and \<^verbatim>\<open>scid_query_nodes_idx\<close> is 0, as a new peer and
  every finished query leave them). The handler itself sends nothing, and the calls of
  \<^verbatim>\<open>create_next_scid_reply\<close> that follow send, over a graph that stays as it is,
  exactly: for each queried id in the order of the query whose channel is known and
  announced, its \<^verbatim>\<open>channel_announcement\<close> and then the \<^verbatim>\<open>channel_update\<close> of each half
  that has one; then the \<^verbatim>\<open>node_announcement\<close> of each end of those channels, the node
  ids sorted and without repetition, for the nodes that have been announced; then one
  \<^verbatim>\<open>reply_short_channel_ids_end\<close> with \<open>complete = true\<close>.\<close>

theorem scid_query_reply_sequence:
  fixes peer :: "('k::linorder) peer"
  assumes "scid_queries peer = None" and "scid_query_nodes peer = None"
    and "scid_query_nodes_idx peer = 0"
    and "d encoded = Some scids"
  shows "snd (handle_query_short_channel_ids d rs peer (Some (chain_hash rs, encoded))) = []
       \<and> scid_query_output rs
            (fst (handle_query_short_channel_ids d rs peer (Some (chain_hash rs, encoded)))) =
           concat (map (scid_chan_msgs rs) scids)
           @ concat (map (node_msgs rs)
               (sorted_list_of_set (set (concat (map (scid_chan_nodes rs) scids)))))
           @ [Reply_short_channel_ids_end (chain_hash rs) True]"
proof -
  let ?p = "peer\<lparr>scid_queries := Some scids, scid_query_idx := 0, scid_query_nodes := Some []\<rparr>"
  have h: "handle_query_short_channel_ids d rs peer (Some (chain_hash rs, encoded)) = (?p, [])"
    using assms by (simp add: handle_query_short_channel_ids_def)
  have "scid_query_output rs ?p =
           concat (map (scid_chan_msgs rs) scids)
           @ concat (map (node_msgs rs)
               (uniquify_node_ids (concat (map (scid_chan_nodes rs) scids))))
           @ [reply_end rs]"
  proof (cases "scids = []")
    case True
    have "scid_query_output rs ?p = concat (map (node_msgs rs) (drop 0 [])) @ [reply_end rs]"
      by (rule scid_query_output_nodes) (simp_all add: True assms(3))
    then show ?thesis using True by (simp add: uniquify_node_ids_eq)
  next
    case False
    have "scid_query_output rs ?p =
           concat (map (scid_chan_msgs rs) (drop 0 scids))
           @ concat (map (node_msgs rs)
               (uniquify_node_ids ([] @ concat (map (scid_chan_nodes rs) (drop 0 scids)))))
           @ [reply_end rs]"
      by (rule scid_query_output_chans) (simp_all add: False assms(3))
    then show ?thesis by simp
  qed
  then show ?thesis by (simp add: h uniquify_node_ids_eq)
qed

theorem scid_query_reply_sequence_witness:
  "scid_queries peer0 = None \<and> scid_query_nodes peer0 = None \<and> scid_query_nodes_idx peer0 = 0
   \<and> scid_query_output rs_two
        (fst (handle_query_short_channel_ids
               (\<lambda>encoded. Some [1099511627777, 555, 1099511627776, 1099511627777])
               rs_two peer0 (Some ([1], [])))) =
       [Raw [11], Raw [12], Raw [13], Raw [1], Raw [2], Raw [11], Raw [12], Raw [13],
        Raw [4], Raw [5], Reply_short_channel_ids_end [1] True]"
proof -
  have a: "scid_queries peer0 = None" and b: "scid_query_nodes peer0 = None"
    and c: "scid_query_nodes_idx peer0 = 0"
    by (simp_all add: peer0_def)
  have d: "(\<lambda>encoded. Some [1099511627777, 555, 1099511627776, 1099511627777 :: short_channel_id]) []
      = Some [1099511627777, 555, 1099511627776, 1099511627777]"
    by simp
  have ch: "chain_hash rs_two = [1]" by (simp add: rs_two_def rs0_def)
  let ?q = "[1099511627777, 555, 1099511627776, 1099511627777 :: short_channel_id]"
  have m: "concat (map (scid_chan_msgs rs_two) ?q) =
      [Raw [11], Raw [12], Raw [13], Raw [1], Raw [2], Raw [11], Raw [12], Raw [13]]"
    by (simp add: scid_chan_msgs_def get_channel_def is_chan_announced_def tal_list_def
        rs_two_def rs0_def chan_x_def chan_y_def)
  have n: "concat (map (scid_chan_nodes rs_two) ?q) = [7, 9, 3, 7, 7, 9]"
    by (simp add: scid_chan_nodes_def get_channel_def is_chan_announced_def
        rs_two_def rs0_def chan_x_def chan_y_def)
  have s: "sorted_list_of_set (set [7, 9, 3, 7, 7, 9 :: nat]) = [3, 7, 9]"
    by (simp only: sorted_list_of_set_sort_remdups) simp
  have nm: "concat (map (node_msgs rs_two) [3, 7, 9]) = [Raw [4], Raw [5]]"
    by (simp add: node_msgs_def get_node_def tal_list_def rs_two_def rs0_def
        node_self_def node_peer_def node_far_def)
  show ?thesis
    using a b c scid_query_reply_sequence [OF a b c d, of rs_two]
    unfolding m n s nm ch by simp
qed

subsection \<open>C2: the replies to a query of a block range\<close>

text \<open>C2, as stated, fails at \<open>first = 0\<close>: the scan starts after the last id of block 0
  ("we don't use block 0 anyway"), so a channel in block 0 is never reported. With the
  id 5 (block 0, transaction 0, output 5) in the channel map, the query for blocks
  \<open>[0, 1)\<close> is answered by one reply that carries the encoding of the empty list.\<close>

theorem query_channel_range_block0_counterexample:
  "handle_query_channel_range zlib_level9 UINT32_MAX rs_five (Some ([1], 0, 1)) =
     Inr [Reply_channel_range [1] 0 1 1 [SHORTIDS_UNCOMPRESSED]]
   \<and> encode_scids zlib_level9 UINT32_MAX [] 65490 = Inr (True, [SHORTIDS_UNCOMPRESSED])
   \<and> 5 \<in> fst ` set (chanmap rs_five)
   \<and> (0 :: u32) \<le> short_channel_id_blocknum 5
   \<and> short_channel_id_blocknum 5 < 0 + 1"
proof -
  have c: "chain_hash rs_five = [1]" by (simp add: rs_five_def rs0_def)
  have "queue_channel_ranges zlib_level9 UINT32_MAX rs_five 0 1 =
      Inr [Reply_channel_range [1] 0 1 1 [SHORTIDS_UNCOMPRESSED]]"
    by (subst queue_channel_ranges.simps) (simp add: encoded_five reply_channel_range_def c)
  then have "handle_query_channel_range zlib_level9 UINT32_MAX rs_five (Some ([1], 0, 1)) =
     Inr [Reply_channel_range [1] 0 1 1 [SHORTIDS_UNCOMPRESSED]]"
    by (simp add: handle_query_channel_range_def c)
  moreover have "encode_scids zlib_level9 UINT32_MAX [] 65490 = Inr (True, [SHORTIDS_UNCOMPRESSED])"
    by (simp add: encode_scids_eq zlib_level9_def check_length_def UINT32_MAX_def)
  moreover have "5 \<in> fst ` set (chanmap rs_five)" by (simp add: rs_five_def)
  ultimately show ?thesis by (simp add: blocknum_5)
qed

text \<open>The claim fails in a second way: \<^verbatim>\<open>mk_short_channel_id\<close> keeps 24 bits
  of the block, so for \<open>first \<ge> 2^24\<close> the scan starts at block \<open>first mod 2^24\<close>. The
  query for the one block \<open>2^24 + 1\<close>, which no short channel id can name, is answered
  with the two ids of block 1.\<close>

lemma query_channel_range_wrapped_start:
  "handle_query_channel_range zlib_level9 UINT32_MAX rs_two (Some ([1], 16777217, 1)) =
     Inr [Reply_channel_range [1] 16777217 1 1
           (SHORTIDS_ZLIB # [120, 218, 99, 96, 96, 100, 128, 0, 48, 205, 8, 0, 0, 37, 0, 4])]
   \<and> encode_scids zlib_level9 UINT32_MAX [1099511627776, 1099511627777] 65490 =
       Inr (True, SHORTIDS_ZLIB # [120, 218, 99, 96, 96, 100, 128, 0, 48, 205, 8, 0, 0, 37, 0, 4])
   \<and> range_scids rs_two 16777217 16777218 = {}"
proof -
  have c: "chain_hash rs_two = [1]" by (simp add: rs_two_def rs0_def)
  have "queue_channel_ranges zlib_level9 UINT32_MAX rs_two 16777217 1 =
      Inr [Reply_channel_range [1] 16777217 1 1
           (SHORTIDS_ZLIB # [120, 218, 99, 96, 96, 100, 128, 0, 48, 205, 8, 0, 0, 37, 0, 4])]"
    by (subst queue_channel_ranges.simps) (simp add: encoded_two_wrapped reply_channel_range_def c)
  moreover have "\<not> (16777217 + 1 :: u32) < 16777217" by (simp add: word_less_nat_alt)
  ultimately have "handle_query_channel_range zlib_level9 UINT32_MAX rs_two
      (Some ([1], 16777217, 1)) =
      Inr [Reply_channel_range [1] 16777217 1 1
           (SHORTIDS_ZLIB # [120, 218, 99, 96, 96, 100, 128, 0, 48, 205, 8, 0, 0, 37, 0, 4])]"
    by (simp add: handle_query_channel_range_def c)
  moreover have "encode_scids zlib_level9 UINT32_MAX [1099511627776, 1099511627777] 65490 =
       Inr (True, SHORTIDS_ZLIB # [120, 218, 99, 96, 96, 100, 128, 0, 48, 205, 8, 0, 0, 37, 0, 4])"
    by (simp add: encode_scids_eq towire_x towire_y zlib_level9_def check_length_def
        UINT32_MAX_def)
  moreover have "range_scids rs_two 16777217 16777218 = {}"
    by (intro range_scids_high) simp
  ultimately show ?thesis by simp
qed

text \<open>C2, amended. Let a \<^verbatim>\<open>query_channel_range(first, num)\<close> name our chain, with
  \<open>first < 2^24\<close> (the block heights a short channel id can hold) and \<open>first + num\<close> not
  overflowing 32 bits. Let either the ids of the whole range fit into one reply, or the
  ids of every single block below \<open>2^24\<close> of the range fit into one reply and, besides,
  \<open>first + num \<le> 2^24\<close> or \<open>first \<le> 1\<close>. Then the handler emits replies that encode lists
  of ids whose union is the set of the ids of the channel map with
  \<open>max first 1 \<le> block < first + num\<close>: block 0 is never reported. (When a range that
  does not fit is halved beyond \<open>2^24\<close>, the second half starts at its block modulo
  \<open>2^24\<close>; for \<open>first \<le> 1\<close> the ids it then reports belong to the answer anyway.)\<close>

theorem query_channel_range_union:
  assumes "unat first_blocknum < 2 ^ 24"
    and "unat first_blocknum + unat number_of_blocks < 2 ^ 32"
    and "range_fits deflate mx rs first_blocknum number_of_blocks
         \<or> (unat first_blocknum + unat number_of_blocks \<le> 2 ^ 24 \<or> unat first_blocknum \<le> 1)
           \<and> (\<forall>b. unat first_blocknum \<le> unat b
                    \<and> unat b < unat first_blocknum + unat number_of_blocks
                    \<and> unat b < 2 ^ 24 \<longrightarrow>
                    block_fits deflate mx rs b)"
  shows "\<exists>out sss.
           handle_query_channel_range deflate mx rs
             (Some (chain_hash rs, first_blocknum, number_of_blocks)) = Inr out
         \<and> replies_encode deflate mx rs out sss
         \<and> \<Union> (set ` set sss) =
             range_scids rs (max 1 (unat first_blocknum))
               (unat first_blocknum + unat number_of_blocks)"
proof -
  let ?lo = "max 1 (unat first_blocknum)"
  let ?hi = "unat first_blocknum + unat number_of_blocks"
  have h: "handle_query_channel_range deflate mx rs
          (Some (chain_hash rs, first_blocknum, number_of_blocks)) =
        queue_channel_ranges deflate mx rs first_blocknum number_of_blocks"
    using u32_accepted [OF assms(2)] by (simp add: handle_query_channel_range_def)
  from assms(3) show ?thesis
  proof
    assume "range_fits deflate mx rs first_blocknum number_of_blocks"
    then obtain enc where
      cr: "channel_range_encoded deflate mx rs first_blocknum number_of_blocks = Inr (True, enc)"
      by (auto simp: range_fits_def)
    from channel_range_encoded_scanned [of deflate mx rs first_blocknum number_of_blocks]
    obtain ss where
      ce: "channel_range_encoded deflate mx rs first_blocknum number_of_blocks =
             encode_scids deflate mx ss 65490"
      and st: "set ss = scanned rs first_blocknum number_of_blocks"
      by blast
    have "queue_channel_ranges deflate mx rs first_blocknum number_of_blocks =
        Inr [Reply_channel_range (chain_hash rs) first_blocknum number_of_blocks 1 enc]"
      using cr by (subst queue_channel_ranges.simps) (simp add: reply_channel_range_def)
    moreover have "replies_encode deflate mx rs
        [Reply_channel_range (chain_hash rs) first_blocknum number_of_blocks 1 enc] [ss]"
      using ce cr by (simp add: replies_encode_def)
    moreover have "\<Union> (set ` set [ss]) = range_scids rs ?lo ?hi"
      using st scanned_exact [OF assms(1,2), of rs] by simp
    ultimately show ?thesis unfolding h by blast
  next
    assume a: "(?hi \<le> 2 ^ 24 \<or> unat first_blocknum \<le> 1)
           \<and> (\<forall>b. unat first_blocknum \<le> unat b \<and> unat b < ?hi \<and> unat b < 2 ^ 24 \<longrightarrow>
                    block_fits deflate mx rs b)"
    then have fit: "\<And>b. unat first_blocknum \<le> unat b \<Longrightarrow> unat b < ?hi \<Longrightarrow>
        unat b < 2 ^ 24 \<Longrightarrow> block_fits deflate mx rs b"
      by blast
    from queue_channel_ranges_bounds [OF assms(2) fit] obtain out sss where
      q: "queue_channel_ranges deflate mx rs first_blocknum number_of_blocks = Inr out"
      and e: "replies_encode deflate mx rs out sss"
      and l: "range_scids rs ?lo ?hi \<subseteq> \<Union> (set ` set sss)"
      and u: "\<Union> (set ` set sss) \<subseteq> range_bound rs ?lo ?hi"
      by blast
    have "range_bound rs ?lo ?hi = range_scids rs ?lo ?hi"
    proof (cases "?hi \<le> 2 ^ 24")
      case True
      then show ?thesis by (simp add: range_bound_def)
    next
      case False
      then have "unat first_blocknum \<le> 1" using a by blast
      then have "?lo = 1" by simp
      moreover have "range_scids rs 1 ?hi = range_scids rs 1 (2 ^ 24)"
        using False by (intro range_scids_cap) simp
      ultimately show ?thesis using False by (simp add: range_bound_def)
    qed
    then have "\<Union> (set ` set sss) = range_scids rs ?lo ?hi" using l u by auto
    then show ?thesis using q e unfolding h by blast
  qed
qed

theorem query_channel_range_union_witness:
  "unat (1 :: u32) < 2 ^ 24 \<and> unat (1 :: u32) + unat (2 :: u32) \<le> 2 ^ 24
   \<and> \<not> range_fits zlib_level9 9 rs_split 1 2
   \<and> block_fits zlib_level9 9 rs_split 1 \<and> block_fits zlib_level9 9 rs_split 2
   \<and> handle_query_channel_range zlib_level9 9 rs_split (Some ([1], 1, 2)) =
       Inr [Reply_channel_range [1] 1 1 1 (SHORTIDS_UNCOMPRESSED # [0, 0, 1, 0, 0, 0, 0, 0]),
            Reply_channel_range [1] 2 1 1 (SHORTIDS_UNCOMPRESSED # [0, 0, 2, 0, 0, 0, 0, 0])]
   \<and> (\<exists>sss. replies_encode zlib_level9 9 rs_split
                [Reply_channel_range [1] 1 1 1 (SHORTIDS_UNCOMPRESSED # [0, 0, 1, 0, 0, 0, 0, 0]),
                 Reply_channel_range [1] 2 1 1 (SHORTIDS_UNCOMPRESSED # [0, 0, 2, 0, 0, 0, 0, 0])]
                sss
            \<and> \<Union> (set ` set sss) = {1099511627776, 2199023255552})
   \<and> unat (0 :: u32) \<le> 1 \<and> unat (0 :: u32) + unat (4294967295 :: u32) < 2 ^ 32
   \<and> \<not> range_fits zlib_level9 9 rs_split 0 4294967295
   \<and> (\<exists>out sss. handle_query_channel_range zlib_level9 9 rs_split (Some ([1], 0, 4294967295)) =
                   Inr out
                \<and> replies_encode zlib_level9 9 rs_split out sss
                \<and> \<Union> (set ` set sss) = {1099511627776, 2199023255552})
   \<and> range_fits zlib_level9 UINT32_MAX rs_two 0 4294967295
   \<and> (\<exists>out sss. handle_query_channel_range zlib_level9 UINT32_MAX rs_two
                   (Some ([1], 0, 4294967295)) = Inr out
                \<and> replies_encode zlib_level9 UINT32_MAX rs_two out sss
                \<and> \<Union> (set ` set sss) = {1099511627776, 1099511627777})"
proof -
  have c: "chain_hash rs_split = [1]" by (simp add: rs_split_def rs0_def)
  have c2: "chain_hash rs_two = [1]" by (simp add: rs_two_def rs0_def)
  have a1: "unat (1 :: u32) < 2 ^ 24" by simp
  have a2: "unat (1 :: u32) + unat (2 :: u32) < 2 ^ 32" by simp
  have a3: "unat (1 :: u32) + unat (2 :: u32) \<le> 2 ^ 24" by simp
  have z1: "unat (0 :: u32) < 2 ^ 24" by simp
  have z2: "unat (0 :: u32) + unat (4294967295 :: u32) < 2 ^ 32" by simp
  have z3: "unat (0 :: u32) \<le> 1" by simp
  have n1: "\<not> range_fits zlib_level9 9 rs_split 1 2"
    by (simp add: range_fits_def encoded_split_1_2)
  have f: "\<And>f n. \<forall>b :: u32. unat f \<le> unat b \<and> unat b < unat f + unat n \<and> unat b < 2 ^ 24 \<longrightarrow>
      block_fits zlib_level9 9 rs_split b"
    using block_fits_split by blast
  have h: "handle_query_channel_range zlib_level9 9 rs_split (Some ([1], 1, 2)) =
       Inr [Reply_channel_range [1] 1 1 1 (SHORTIDS_UNCOMPRESSED # [0, 0, 1, 0, 0, 0, 0, 0]),
            Reply_channel_range [1] 2 1 1 (SHORTIDS_UNCOMPRESSED # [0, 0, 2, 0, 0, 0, 0, 0])]"
    using queue_split_1_2 u32_accepted [OF a2] by (simp add: handle_query_channel_range_def c)
  have r1: "range_scids rs_split (max 1 (unat (1 :: u32))) (unat (1 :: u32) + unat (2 :: u32)) =
      {1099511627776, 2199023255552}"
  proof -
    have "max 1 (unat (1 :: u32)) = 1" and "unat (1 :: u32) + unat (2 :: u32) = 3" by simp_all
    then show ?thesis using range_scids_split_all by (simp only:)
  qed
  have r2: "range_scids rs_split (max 1 (unat (0 :: u32)))
      (unat (0 :: u32) + unat (4294967295 :: u32)) = {1099511627776, 2199023255552}"
  proof -
    have "max 1 (unat (0 :: u32)) = 1" by simp
    moreover have "range_scids rs_split 1 (unat (0 :: u32) + unat (4294967295 :: u32)) =
        range_scids rs_split 1 (2 ^ 24)"
      by (intro range_scids_cap) simp
    moreover have "range_scids rs_split 1 (2 ^ 24) = {1099511627776, 2199023255552}"
      by (auto simp: range_scids_def rs_split_def blocknum_x blocknum_w)
    ultimately show ?thesis by (simp only:)
  qed
  have r3: "range_scids rs_two (max 1 (unat (0 :: u32)))
      (unat (0 :: u32) + unat (4294967295 :: u32)) = {1099511627776, 1099511627777}"
  proof -
    have "max 1 (unat (0 :: u32)) = 1" by simp
    moreover have "range_scids rs_two 1 (unat (0 :: u32) + unat (4294967295 :: u32)) =
        range_scids rs_two 1 (2 ^ 24)"
      by (intro range_scids_cap) simp
    moreover have "range_scids rs_two 1 (2 ^ 24) = {1099511627776, 1099511627777}"
      by (auto simp: range_scids_def rs_two_def blocknum_x blocknum_y)
    ultimately show ?thesis by (simp only:)
  qed
  have n2: "\<not> range_fits zlib_level9 9 rs_split 0 4294967295"
  proof -
    have "\<not> (0 + 4294967295 :: u32) \<le> 1" "\<not> (0 + 4294967295 :: u32) \<le> 2"
      by (simp_all add: word_le_nat_alt)
    then have "channel_range_scan (chanmap rs_split) 1099511627775 (0 + 4294967295)
        [SHORTIDS_ZLIB] = [SHORTIDS_ZLIB] @ [0, 0, 1, 0, 0, 0, 0, 0] @ [0, 0, 2, 0, 0, 0, 0, 0]"
      apply (subst channel_range_scan.simps, simp add: after_split blocknum_x)
      apply (subst channel_range_scan.simps, simp add: after_split blocknum_w)
      apply (subst channel_range_scan.simps, simp add: after_split)
      apply (simp add: encode_add_short_channel_id_def towire_x towire_w)
      done
    then have "channel_range_encoded zlib_level9 9 rs_split 0 4294967295 =
       Inr (False, SHORTIDS_ZLIB # [120, 218, 99, 96, 96, 100, 128, 0, 38, 48, 9, 0, 0, 42, 0, 4])"
      using range_start_0
      by (simp add: channel_range_encoded_def Let_def range_start_def
          encode_short_channel_ids_start_def encode_short_channel_ids_end_def zencode_scids_eq
          zlib_level9_def check_length_def)
    then show ?thesis by (simp add: range_fits_def)
  qed
  have f3: "range_fits zlib_level9 UINT32_MAX rs_two 0 4294967295"
    by (simp add: range_fits_def encoded_two_all)
  have w1: "\<exists>out sss. handle_query_channel_range zlib_level9 9 rs_split
             (Some (chain_hash rs_split, 1, 2)) = Inr out
         \<and> replies_encode zlib_level9 9 rs_split out sss
         \<and> \<Union> (set ` set sss) = {1099511627776, 2199023255552}"
    using query_channel_range_union [of 1 2 zlib_level9 9 rs_split, OF a1 a2] a3 f [of 1 2]
    unfolding r1 by blast
  have w2: "\<exists>out sss. handle_query_channel_range zlib_level9 9 rs_split
             (Some (chain_hash rs_split, 0, 4294967295)) = Inr out
         \<and> replies_encode zlib_level9 9 rs_split out sss
         \<and> \<Union> (set ` set sss) = {1099511627776, 2199023255552}"
    using query_channel_range_union [of 0 4294967295 zlib_level9 9 rs_split, OF z1 z2]
      z3 f [of 0 4294967295]
    unfolding r2 by blast
  have w3: "\<exists>out sss. handle_query_channel_range zlib_level9 UINT32_MAX rs_two
             (Some (chain_hash rs_two, 0, 4294967295)) = Inr out
         \<and> replies_encode zlib_level9 UINT32_MAX rs_two out sss
         \<and> \<Union> (set ` set sss) = {1099511627776, 1099511627777}"
    using query_channel_range_union [of 0 4294967295 zlib_level9 UINT32_MAX rs_two, OF z1 z2] f3
    unfolding r3 by blast
  have b1: "block_fits zlib_level9 9 rs_split 1" "block_fits zlib_level9 9 rs_split 2"
    by (simp_all add: block_fits_def encoded_split_1_1 encoded_split_2_1)
  from w1 have w1': "\<exists>sss. replies_encode zlib_level9 9 rs_split
                [Reply_channel_range [1] 1 1 1 (SHORTIDS_UNCOMPRESSED # [0, 0, 1, 0, 0, 0, 0, 0]),
                 Reply_channel_range [1] 2 1 1 (SHORTIDS_UNCOMPRESSED # [0, 0, 2, 0, 0, 0, 0, 0])]
                sss
            \<and> \<Union> (set ` set sss) = {1099511627776, 2199023255552}"
    unfolding c h by blast
  show ?thesis
    using a1 a3 n1 b1 h w1' z3 z2 n2 w2 [unfolded c] f3 w3 [unfolded c2]
    by (intro conjI)
qed

end
